theory Spec2Isabelle
  imports Main "HOL-Library.AList"
begin

section \<open>JavaScript values\<close>

text \<open>
  The values that flow through the cache and the merge: JSON values, \<open>undefined\<close>, and the
  two kinds of object that \<open>isMergeableObject\<close> singles out (\<open>Date\<close> and \<open>RegExp\<close>).
  An object is the list of its own enumerable entries in \<open>Object.keys\<close> order; a list that
  stands for an object has pairwise distinct keys (\<open>wf_jsval\<close>). The merge works on own
  entries; what the two dictionaries of the cache inherit from \<open>Object.prototype\<close> is
  described with the cache.
\<close>

datatype jsval =
    JUndefined
  | JNull
  | JBool bool
  | JNum int
  | JStr string
  | JDate int
  | JRegExp string
  | JArr "jsval list"
  | JObj "(string \<times> jsval) list"

fun wf_jsval :: "jsval \<Rightarrow> bool" where
  "wf_jsval (JArr xs) = (\<forall>x \<in> set xs. wf_jsval x)"
| "wf_jsval (JObj ps) = (distinct (map fst ps) \<and> (\<forall>p \<in> set ps. wf_jsval (snd p)))"
| "wf_jsval v = True"

text \<open>The \<open>typeof\<close> operator.\<close>

fun typeof :: "jsval \<Rightarrow> string" where
  "typeof JUndefined = ''undefined''"
| "typeof JNull = ''object''"
| "typeof (JBool b) = ''boolean''"
| "typeof (JNum n) = ''number''"
| "typeof (JStr s) = ''string''"
| "typeof (JDate d) = ''object''"
| "typeof (JRegExp r) = ''object''"
| "typeof (JArr xs) = ''object''"
| "typeof (JObj ps) = ''object''"

text \<open>\<open>Object.prototype.toString.call(val)\<close>.\<close>

fun objectToString :: "jsval \<Rightarrow> string" where
  "objectToString JUndefined = ''[object Undefined]''"
| "objectToString JNull = ''[object Null]''"
| "objectToString (JBool b) = ''[object Boolean]''"
| "objectToString (JNum n) = ''[object Number]''"
| "objectToString (JStr s) = ''[object String]''"
| "objectToString (JDate d) = ''[object Date]''"
| "objectToString (JRegExp r) = ''[object RegExp]''"
| "objectToString (JArr xs) = ''[object Array]''"
| "objectToString (JObj ps) = ''[object Object]''"

text \<open>\<open>Array.isArray\<close>.\<close>

fun isArray :: "jsval \<Rightarrow> bool" where
  "isArray (JArr xs) = True"
| "isArray v = False"

text \<open>Decimal numerals, the keys of array elements and of the characters of a string.\<close>

function decimal :: "nat \<Rightarrow> string" where
  "decimal n = (if n < 10 then [''0123456789'' ! n]
                else decimal (n div 10) @ [''0123456789'' ! (n mod 10)])"
  by pat_completeness auto
termination
  by (relation "measure id") auto

text \<open>The own enumerable entries of a value, in \<open>Object.keys\<close> order.\<close>

fun ownEntries :: "jsval \<Rightarrow> (string \<times> jsval) list" where
  "ownEntries (JObj ps) = ps"
| "ownEntries (JArr xs) = zip (map decimal [0..<length xs]) xs"
| "ownEntries (JStr s) = zip (map decimal [0..<length s]) (map (\<lambda>ch. JStr [ch]) s)"
| "ownEntries v = []"

text \<open>Following a path of keys through nested objects.\<close>

fun getPath :: "jsval \<Rightarrow> string list \<Rightarrow> jsval option" where
  "getPath v [] = Some v"
| "getPath (JObj ps) (k # p) = (case map_of ps k of Some w \<Rightarrow> getPath w p | None \<Rightarrow> None)"
| "getPath v (k # p) = None"

section \<open>fastMerge.ts\<close>

definition isMergeableObject :: "jsval \<Rightarrow> bool" where
  "isMergeableObject val =
     (let nonNullObject =
            (if val \<noteq> JNull \<and> val \<noteq> JUndefined then typeof val = ''object'' else False)
      in nonNullObject
         \<and> objectToString val \<noteq> ''[object RegExp]''
         \<and> objectToString val \<noteq> ''[object Date]'')"

definition arrayMerge :: "jsval list \<Rightarrow> jsval list \<Rightarrow> jsval list" where
  "arrayMerge destinationArray sourceArray = sourceArray"

text \<open>The two options that \<open>fastMerge\<close> hands to \<open>deepmerge\<close>.\<close>

record options =
  opt_isMergeableObject :: "jsval \<Rightarrow> bool"
  opt_arrayMerge :: "jsval list \<Rightarrow> jsval list \<Rightarrow> jsval list"

text \<open>
  Modelled from the spec: \<open>deepmerge\<close> is the function of the npm package of that name that
  \<open>fastMerge.ts\<close> imports; its code is not among the sources. Section 4.1 of the
  specification fixes what it computes: a patch that is not a plain mapping (a primitive or
  an array) is the result as it is; two plain mappings are merged key by key, where at a key
  of the patch two plain mappings are merged recursively and otherwise the value of the
  patch wins, and the keys that only the base has are kept. The options are consulted where
  the package consults them: \<open>isMergeableObject\<close> decides which values are merged rather
  than replaced, \<open>arrayMerge\<close> combines two arrays. Values are immutable here, so the copies
  that the package makes are the values themselves.
\<close>

fun deepmerge :: "options \<Rightarrow> jsval \<Rightarrow> jsval \<Rightarrow> jsval"
and mergeObject :: "options \<Rightarrow> (string \<times> jsval) list \<Rightarrow> (string \<times> jsval) list
                      \<Rightarrow> (string \<times> jsval) list \<Rightarrow> (string \<times> jsval) list" where
  "deepmerge opts target (JArr ss) =
     (case target of JArr ts \<Rightarrow> JArr (opt_arrayMerge opts ts ss) | _ \<Rightarrow> JArr ss)"
| "deepmerge opts target (JObj ps) =
     (if \<not> opt_isMergeableObject opts (JObj ps) then JObj ps
      else (case target of
              JObj ts \<Rightarrow>
                if opt_isMergeableObject opts target then JObj (mergeObject opts ts ts ps)
                else JObj ps
            | _ \<Rightarrow> JObj ps))"
| "deepmerge opts target source = source"
| "mergeObject opts ts destination [] = destination"
| "mergeObject opts ts destination ((key, v) # ps) =
     mergeObject opts ts
       (AList.update key
          (case map_of ts key of
             Some tv \<Rightarrow> if opt_isMergeableObject opts v then deepmerge opts tv v else v
           | None \<Rightarrow> v)
          destination)
       ps"

definition fastMerge :: "jsval \<Rightarrow> jsval \<Rightarrow> jsval" where
  "fastMerge target source =
     deepmerge \<lparr>opt_isMergeableObject = isMergeableObject, opt_arrayMerge = arrayMerge\<rparr>
       target source"

text \<open>What \<open>mergeObject\<close> stores under a key of the patch, and the options of \<open>fastMerge\<close>.\<close>

definition mergedValue :: "options \<Rightarrow> (string \<times> jsval) list \<Rightarrow> string \<Rightarrow> jsval \<Rightarrow> jsval" where
  "mergedValue opts ts key v =
     (case map_of ts key of
        Some tv \<Rightarrow> if opt_isMergeableObject opts v then deepmerge opts tv v else v
      | None \<Rightarrow> v)"

abbreviation fm_opts :: options where
  "fm_opts \<equiv> \<lparr>opt_isMergeableObject = isMergeableObject, opt_arrayMerge = arrayMerge\<rparr>"

subsection \<open>The recursive key union of the specification\<close>

text \<open>
  The merge as section 4.1 and section 8 of the specification describe it, written without
  reference to the code: the entries of \<open>A\<close> in their order, each replaced by what \<open>B\<close> says
  about its key (two plain mappings are united recursively, otherwise the value of \<open>B\<close>
  wins), followed by the entries of \<open>B\<close> whose keys \<open>A\<close> does not have.
\<close>

fun is_plain :: "jsval \<Rightarrow> bool" where
  "is_plain (JObj ps) = True"
| "is_plain v = False"

fun key_union :: "jsval \<Rightarrow> jsval \<Rightarrow> jsval" where
  "key_union (JObj as) (JObj bs) =
     JObj (map (\<lambda>p. (fst p,
                     case map_of bs (fst p) of
                       None \<Rightarrow> snd p
                     | Some b \<Rightarrow> if is_plain (snd p) \<and> is_plain b then key_union (snd p) b
                                else b)) as
           @ filter (\<lambda>p. map_of as (fst p) = None) bs)"
| "key_union a b = b"

text \<open>The values that the merge must treat as opaque scalars.\<close>

fun is_opaque :: "jsval \<Rightarrow> bool" where
  "is_opaque (JDate d) = True"
| "is_opaque (JRegExp r) = True"
| "is_opaque v = False"

section \<open>Promises\<close>

text \<open>
  A promise is known by a number. It settles once, fulfilled or rejected.
\<close>

datatype outcome = Fulfilled jsval | Rejected jsval

section \<open>OnyxCache\<close>

subsection \<open>Plain objects used as dictionaries\<close>

text \<open>
  \<open>storageMap\<close> and \<open>pendingPromises\<close> are created as \<open>{}\<close> and used as dictionaries with
  \<open>obj[key]\<close>, \<open>obj[key] = value\<close> and \<open>delete obj[key]\<close>. Such an object has its own entries
  and a prototype. A read that finds no own entry goes on to the prototype, so the names
  of the properties of \<open>Object.prototype\<close> are never undefined in a \<open>{}\<close>; an assignment
  to \<open>__proto__\<close> that finds no own entry reaches the setter of \<open>Object.prototype\<close>, which
  replaces the prototype where the value is an object or \<open>null\<close> and does nothing
  otherwise, and stores no entry.
\<close>

definition objectPrototypeKeys :: "string list" where
  "objectPrototypeKeys =
     [''constructor'', ''__defineGetter__'', ''__defineSetter__'', ''hasOwnProperty'',
      ''__lookupGetter__'', ''__lookupSetter__'', ''isPrototypeOf'', ''propertyIsEnumerable'',
      ''toString'', ''valueOf'', ''__proto__'', ''toLocaleString'']"

datatype 'v proto = ObjectPrototype | NullPrototype | ReplacedBy 'v

record 'v dict =
  own :: "(string \<times> 'v) list"
  proto :: "'v proto"

definition new_dict :: "'v dict" where
  "new_dict = \<lparr>own = [], proto = ObjectPrototype\<rparr>"

text \<open>
  What a read yields: the value of an entry; what every plain object inherits from
  \<open>Object.prototype\<close> under the given name (a function; under \<open>__proto__\<close> the prototype
  itself); or \<open>undefined\<close> because there is no such property.
\<close>

datatype 'v property = Value 'v | Builtin string | Missing

text \<open>What the setter of \<open>__proto__\<close> sees in the assigned value.\<close>

datatype proto_kind = KindNull | KindObject | KindOther

fun value_kind :: "jsval \<Rightarrow> proto_kind" where
  "value_kind JNull = KindNull"
| "value_kind (JObj ps) = KindObject"
| "value_kind (JArr xs) = KindObject"
| "value_kind (JDate d) = KindObject"
| "value_kind (JRegExp r) = KindObject"
| "value_kind v = KindOther"

text \<open>
  Once a value has taken the place of the prototype, what a dictionary inherits is decided
  by that value and by the built-in prototypes behind it (\<open>Array.prototype\<close>,
  \<open>RegExp.prototype\<close>, \<open>Promise.prototype\<close>, ...), which are the runtime's and not the
  repository's. They are parameters of the model: what a read of a key finds through a
  value that is the prototype, and what an assignment to a key does when the dictionary has
  no entry of its own for it (it creates the entry, it reaches the setter of \<open>__proto__\<close>,
  or it throws a \<open>TypeError\<close>, as on an accessor without setter in strict code).
\<close>

datatype assign_effect = CreateOwn | CallProtoSetter | ThrowTypeError

record runtime =
  inheritedFromValue :: "jsval \<Rightarrow> string \<Rightarrow> jsval property"
  assignThroughValue :: "jsval \<Rightarrow> string \<Rightarrow> assign_effect"
  inheritedFromPromise :: "nat \<Rightarrow> string \<Rightarrow> nat property"
  assignThroughPromise :: "nat \<Rightarrow> string \<Rightarrow> assign_effect"

datatype error = Error string | TypeError

text \<open>\<open>obj[key]\<close>.\<close>

definition dict_get :: "('v \<Rightarrow> string \<Rightarrow> 'v property) \<Rightarrow> 'v dict \<Rightarrow> string \<Rightarrow> 'v property" where
  "dict_get inherited d key =
     (case map_of (own d) key of
        Some v \<Rightarrow> Value v
      | None \<Rightarrow>
          (case proto d of
             ObjectPrototype \<Rightarrow> if key \<in> set objectPrototypeKeys then Builtin key else Missing
           | NullPrototype \<Rightarrow> Missing
           | ReplacedBy p \<Rightarrow> inherited p key))"

text \<open>The setter of \<open>__proto__\<close>.\<close>

definition proto_setter :: "('v \<Rightarrow> proto_kind) \<Rightarrow> 'v \<Rightarrow> 'v dict \<Rightarrow> 'v dict" where
  "proto_setter kind v d =
     (case kind v of
        KindNull \<Rightarrow> d\<lparr>proto := NullPrototype\<rparr>
      | KindObject \<Rightarrow> d\<lparr>proto := ReplacedBy v\<rparr>
      | KindOther \<Rightarrow> d)"

text \<open>\<open>obj[key] = value\<close>.\<close>

definition dict_set ::
  "('v \<Rightarrow> string \<Rightarrow> assign_effect) \<Rightarrow> ('v \<Rightarrow> proto_kind) \<Rightarrow> string \<Rightarrow> 'v \<Rightarrow> 'v dict
    \<Rightarrow> error + 'v dict" where
  "dict_set assignThrough kind key v d =
     (if map_of (own d) key \<noteq> None then Inr (d\<lparr>own := AList.update key v (own d)\<rparr>)
      else
        (case proto d of
           ObjectPrototype \<Rightarrow>
             if key = ''__proto__'' then Inr (proto_setter kind v d)
             else Inr (d\<lparr>own := AList.update key v (own d)\<rparr>)
         | NullPrototype \<Rightarrow> Inr (d\<lparr>own := AList.update key v (own d)\<rparr>)
         | ReplacedBy p \<Rightarrow>
             (case assignThrough p key of
                CreateOwn \<Rightarrow> Inr (d\<lparr>own := AList.update key v (own d)\<rparr>)
              | CallProtoSetter \<Rightarrow> Inr (proto_setter kind v d)
              | ThrowTypeError \<Rightarrow> Inl TypeError)))"

text \<open>\<open>delete obj[key]\<close> and \<open>Object.keys(obj)\<close>.\<close>

definition dict_delete :: "string \<Rightarrow> 'v dict \<Rightarrow> 'v dict" where
  "dict_delete key d = d\<lparr>own := AList.delete key (own d)\<rparr>"

definition dict_keys :: "'v dict \<Rightarrow> string list" where
  "dict_keys d = map fst (own d)"

text \<open>
  \<open>Object.assign(target, source)\<close> assigns the own entries of the source to the target one
  after the other, and stops at the first assignment that throws.
\<close>

fun assign_all ::
  "('v \<Rightarrow> string \<Rightarrow> assign_effect) \<Rightarrow> ('v \<Rightarrow> proto_kind) \<Rightarrow> 'v dict \<Rightarrow> (string \<times> 'v) list
    \<Rightarrow> error + 'v dict" where
  "assign_all assignThrough kind d [] = Inr d"
| "assign_all assignThrough kind d (e # es) =
     (case dict_set assignThrough kind (fst e) (snd e) d of
        Inl err \<Rightarrow> Inl err
      | Inr d' \<Rightarrow> assign_all assignThrough kind d' es)"

definition object_assign :: "runtime \<Rightarrow> jsval dict \<Rightarrow> jsval \<Rightarrow> error + jsval dict" where
  "object_assign rt target source =
     assign_all (assignThroughValue rt) value_kind target (ownEntries source)"

subsection \<open>The class\<close>

text \<open>
  The fields of the class. A \<open>Set\<close> is the list of its members in insertion order. The record
  under a task name in \<open>pendingPromises\<close> is \<open>promise.finally(cleanup)\<close>, kept as the number
  of \<open>promise\<close>. The last field is not a field of the class: it is the part of the promises'
  state that the class relies on, the cleanup callbacks that \<open>captureTask\<close> has attached
  with \<open>finally\<close> and that have not run yet, each with the promise it waits for and the
  task name it closes over.
\<close>

record OnyxCache =
  storageKeys :: "string list"
  recentKeys :: "string list"
  storageMap :: "jsval dict"
  pendingPromises :: "nat dict"
  maxRecentKeysSize :: int
  finallyCallbacks :: "(nat \<times> string) list"

text \<open>\<open>Set.prototype.add\<close>, \<open>Set.prototype.delete\<close> and \<open>new Set(iterable)\<close>.\<close>

definition set_add :: "string \<Rightarrow> string list \<Rightarrow> string list" where
  "set_add key s = (if key \<in> set s then s else s @ [key])"

definition set_delete :: "string \<Rightarrow> string list \<Rightarrow> string list" where
  "set_delete key s = removeAll key s"

definition new_Set :: "string list \<Rightarrow> string list" where
  "new_Set xs = foldl (\<lambda>s key. set_add key s) [] xs"

text \<open>The constructor.\<close>

definition new_OnyxCache :: OnyxCache where
  "new_OnyxCache =
     \<lparr>storageKeys = [], recentKeys = [], storageMap = new_dict, pendingPromises = new_dict,
      maxRecentKeysSize = 0, finallyCallbacks = []\<rparr>"

definition getAllKeys :: "OnyxCache \<Rightarrow> string list" where
  "getAllKeys c = storageKeys c"

definition addToAccessedKeys :: "string \<Rightarrow> OnyxCache \<Rightarrow> OnyxCache" where
  "addToAccessedKeys key c = c\<lparr>recentKeys := set_add key (set_delete key (recentKeys c))\<rparr>"

definition getValue :: "runtime \<Rightarrow> string \<Rightarrow> OnyxCache \<Rightarrow> jsval property \<times> OnyxCache" where
  "getValue rt key c =
     (let c1 = addToAccessedKeys key c
      in (dict_get (inheritedFromValue rt) (storageMap c1) key, c1))"

text \<open>
  \<open>isDefined\<close> is \<open>_.negate(_.isUndefined)\<close>. What is inherited from \<open>Object.prototype\<close> is
  defined, and a promise is.
\<close>

fun isDefined :: "jsval property \<Rightarrow> bool" where
  "isDefined (Value v) = (v \<noteq> JUndefined)"
| "isDefined (Builtin name) = True"
| "isDefined Missing = False"

fun isDefinedPromise :: "nat property \<Rightarrow> bool" where
  "isDefinedPromise (Value p) = True"
| "isDefinedPromise (Builtin name) = True"
| "isDefinedPromise Missing = False"

definition hasCacheForKey :: "runtime \<Rightarrow> string \<Rightarrow> OnyxCache \<Rightarrow> bool" where
  "hasCacheForKey rt key c = isDefined (dict_get (inheritedFromValue rt) (storageMap c) key)"

definition addKey :: "string \<Rightarrow> OnyxCache \<Rightarrow> OnyxCache" where
  "addKey key c = c\<lparr>storageKeys := set_add key (storageKeys c)\<rparr>"

text \<open>
  \<open>set\<close> has added the key to both sets when the assignment runs; where the assignment
  throws, the cache that comes with the error has the sets updated and the value map as it
  was.
\<close>

definition set_key :: "runtime \<Rightarrow> string \<Rightarrow> jsval \<Rightarrow> OnyxCache \<Rightarrow> (error + jsval) \<times> OnyxCache" where
  "set_key rt key v c =
     (let c1 = addKey key c;
          c2 = addToAccessedKeys key c1
      in (case dict_set (assignThroughValue rt) value_kind key v (storageMap c2) of
            Inl err \<Rightarrow> (Inl err, c2)
          | Inr d \<Rightarrow> (Inr v, c2\<lparr>storageMap := d\<rparr>)))"

definition drop_key :: "string \<Rightarrow> OnyxCache \<Rightarrow> OnyxCache" where
  "drop_key key c =
     c\<lparr>storageMap := dict_delete key (storageMap c),
       storageKeys := set_delete key (storageKeys c),
       recentKeys := set_delete key (recentKeys c)\<rparr>"

text \<open>Underscore's \<open>_.isObject\<close>, \<open>_.isArray\<close> and \<open>_.keys\<close>.\<close>

definition us_isObject :: "jsval \<Rightarrow> bool" where
  "us_isObject obj = (typeof obj = ''object'' \<and> obj \<noteq> JNull)"

definition us_isArray :: "jsval \<Rightarrow> bool" where
  "us_isArray obj = isArray obj"

definition us_keys :: "jsval \<Rightarrow> string list" where
  "us_keys obj = (if \<not> us_isObject obj then [] else map fst (ownEntries obj))"

text \<open>
  \<open>merge\<close> throws its own error before it touches a field, and \<open>Object.assign\<close> throws
  before \<open>this.storageMap\<close> is assigned: the cache that comes with an error is the cache that
  was given. The merge is given the own entries of the value map as its base.
\<close>

definition merge :: "runtime \<Rightarrow> jsval \<Rightarrow> OnyxCache \<Rightarrow> (error + unit) \<times> OnyxCache" where
  "merge rt data c =
     (if \<not> us_isObject data \<or> us_isArray data
      then (Inl (Error ''data passed to cache.merge() must be an Object of onyx key/value pairs''), c)
      else
        (case object_assign rt new_dict (fastMerge (JObj (own (storageMap c))) data) of
           Inl err \<Rightarrow> (Inl err, c)
         | Inr d \<Rightarrow>
             (let c1 = c\<lparr>storageMap := d\<rparr>;
                  storageKeys' = getAllKeys c1;
                  mergedKeys = us_keys data;
                  c2 = c1\<lparr>storageKeys := new_Set (storageKeys' @ mergedKeys)\<rparr>
              in (Inr (), foldl (\<lambda>c' key. addToAccessedKeys key c') c2 mergedKeys))))"

definition hasPendingTask :: "runtime \<Rightarrow> string \<Rightarrow> OnyxCache \<Rightarrow> bool" where
  "hasPendingTask rt taskName c =
     isDefinedPromise (dict_get (inheritedFromPromise rt) (pendingPromises c) taskName)"

definition getTaskPromise :: "runtime \<Rightarrow> string \<Rightarrow> OnyxCache \<Rightarrow> nat property" where
  "getTaskPromise rt taskName c = dict_get (inheritedFromPromise rt) (pendingPromises c) taskName"

text \<open>
  \<open>captureTask\<close> attaches the cleanup with \<open>finally\<close>, assigns the new promise, and returns
  what it reads back under the task name. A promise is an object for the setter of
  \<open>__proto__\<close>.
\<close>

definition captureTask ::
  "runtime \<Rightarrow> string \<Rightarrow> nat \<Rightarrow> OnyxCache \<Rightarrow> (error + nat property) \<times> OnyxCache" where
  "captureTask rt taskName promise c =
     (let c1 = c\<lparr>finallyCallbacks := finallyCallbacks c @ [(promise, taskName)]\<rparr>
      in (case dict_set (assignThroughPromise rt) (\<lambda>p. KindObject) taskName promise
                 (pendingPromises c1) of
            Inl err \<Rightarrow> (Inl err, c1)
          | Inr d \<Rightarrow>
              (Inr (dict_get (inheritedFromPromise rt) d taskName), c1\<lparr>pendingPromises := d\<rparr>)))"

text \<open>
  The promise settles: every cleanup attached to it by \<open>captureTask\<close> runs
  \<open>delete this.pendingPromises[taskName]\<close>. A \<open>finally\<close> callback does not see the outcome.
\<close>

definition settle :: "nat \<Rightarrow> outcome \<Rightarrow> OnyxCache \<Rightarrow> OnyxCache" where
  "settle promise result c =
     foldl (\<lambda>c' taskName. c'\<lparr>pendingPromises := dict_delete taskName (pendingPromises c')\<rparr>)
       (c\<lparr>finallyCallbacks := filter (\<lambda>cb. fst cb \<noteq> promise) (finallyCallbacks c)\<rparr>)
       (map snd (filter (\<lambda>cb. fst cb = promise) (finallyCallbacks c)))"

text \<open>\<open>Array.prototype.slice(start)\<close> with one argument.\<close>

definition slice_from :: "int \<Rightarrow> 'a list \<Rightarrow> 'a list" where
  "slice_from start xs =
     (let len = int (length xs);
          k = (if start < 0 then max (len + start) 0 else min start len)
      in drop (nat k) xs)"

text \<open>Underscore's \<open>_.difference\<close>.\<close>

definition us_difference :: "string list \<Rightarrow> string list \<Rightarrow> string list" where
  "us_difference xs ys = filter (\<lambda>x. x \<notin> set ys) xs"

definition removeLeastRecentlyUsedKeys :: "OnyxCache \<Rightarrow> OnyxCache" where
  "removeLeastRecentlyUsedKeys c =
     (if int (length (recentKeys c)) \<le> maxRecentKeysSize c then c
      else
        (let recentlyAccessed = slice_from (- maxRecentKeysSize c) (recentKeys c);
             storageKeys' = dict_keys (storageMap c);
             keysToRemove = us_difference storageKeys' recentlyAccessed
         in foldl (\<lambda>c' key. drop_key key c') c keysToRemove))"

definition setRecentKeysLimit :: "int \<Rightarrow> OnyxCache \<Rightarrow> OnyxCache" where
  "setRecentKeysLimit limit c = c\<lparr>maxRecentKeysSize := limit\<rparr>"

text \<open>The calls a client can make on the cache, and the settling of a captured promise.\<close>

datatype cache_op =
    OpGetValue string
  | OpAddKey string
  | OpSet string jsval
  | OpDrop string
  | OpMerge jsval
  | OpCaptureTask string nat
  | OpSettle nat outcome
  | OpRemoveLeastRecentlyUsedKeys
  | OpSetRecentKeysLimit int

fun apply_op :: "runtime \<Rightarrow> OnyxCache \<Rightarrow> cache_op \<Rightarrow> OnyxCache" where
  "apply_op rt c (OpGetValue key) = snd (getValue rt key c)"
| "apply_op rt c (OpAddKey key) = addKey key c"
| "apply_op rt c (OpSet key v) = snd (set_key rt key v c)"
| "apply_op rt c (OpDrop key) = drop_key key c"
| "apply_op rt c (OpMerge data) = snd (merge rt data c)"
| "apply_op rt c (OpCaptureTask taskName promise) = snd (captureTask rt taskName promise c)"
| "apply_op rt c (OpSettle promise result) = settle promise result c"
| "apply_op rt c OpRemoveLeastRecentlyUsedKeys = removeLeastRecentlyUsedKeys c"
| "apply_op rt c (OpSetRecentKeysLimit limit) = setRecentKeysLimit limit c"

text \<open>The operation is the settling of the given promise; it captures under the given name.\<close>

fun settles :: "nat \<Rightarrow> cache_op \<Rightarrow> bool" where
  "settles p (OpSettle q r) = (q = p)"
| "settles p op = False"

fun captures :: "string \<Rightarrow> cache_op \<Rightarrow> bool" where
  "captures n (OpCaptureTask taskName promise) = (taskName = n)"
| "captures n op = False"

text \<open>The invariant of the specification: a key with an entry in the value map is a known key.\<close>

definition known_keys_inv :: "OnyxCache \<Rightarrow> bool" where
  "known_keys_inv c = (set (dict_keys (storageMap c)) \<subseteq> set (storageKeys c))"

text \<open>
  The cache holds the record of a promise under a task name: the entry is there, its
  cleanup is attached, no other promise has a cleanup under that name, and the prototype of
  \<open>pendingPromises\<close> has not been replaced.
\<close>

definition holds_record :: "string \<Rightarrow> nat \<Rightarrow> OnyxCache \<Rightarrow> bool" where
  "holds_record taskName promise c =
     (proto (pendingPromises c) = ObjectPrototype
      \<and> map_of (own (pendingPromises c)) taskName = Some promise
      \<and> (promise, taskName) \<in> set (finallyCallbacks c)
      \<and> (\<forall>cb \<in> set (finallyCallbacks c). snd cb = taskName \<longrightarrow> fst cb = promise))"

text \<open>
  Entries that stand for the own entries of an object and have no entry named
  \<open>__proto__\<close>.
\<close>

definition plain_entries :: "(string \<times> 'v) list \<Rightarrow> bool" where
  "plain_entries es = (distinct (map fst es) \<and> ''__proto__'' \<notin> fst ` set es)"

text \<open>The patches that the guard of \<open>merge\<close> refuses, kind by kind.\<close>

fun refused_patch :: "jsval \<Rightarrow> bool" where
  "refused_patch JUndefined = True"
| "refused_patch JNull = True"
| "refused_patch (JBool b) = True"
| "refused_patch (JNum n) = True"
| "refused_patch (JStr s) = True"
| "refused_patch (JArr xs) = True"
| "refused_patch (JObj ps) = False"
| "refused_patch (JDate d) = False"
| "refused_patch (JRegExp r) = False"

section \<open>SyncQueue\<close>

text \<open>
  The two fields of the class, and what the run of a queue adds to them. An entry of the
  queue holds the \<open>resolve\<close> and \<open>reject\<close> of the promise that \<open>push\<close> returned; the model
  numbers the calls of \<open>push\<close> and keeps that number, the ticket, in their place.
  \<open>running\<close> lists the tickets whose worker promise has been created by \<open>this.run(data)\<close> and
  has not settled; \<open>trace\<close> records, in order, every start and end of a worker and every
  call of a \<open>resolve\<close> or \<open>reject\<close>.
\<close>

datatype 'a sq_event =
    WorkerStart nat 'a
  | WorkerEnd nat outcome
  | PushSettled nat outcome

record 'a SyncQueue =
  queue :: "(nat \<times> 'a) list"
  isProcessing :: bool
  nextTicket :: nat
  running :: "nat list"
  trace :: "'a sq_event list"

definition new_SyncQueue :: "'a SyncQueue" where
  "new_SyncQueue = \<lparr>queue = [], isProcessing = False, nextTicket = 0, running = [], trace = []\<rparr>"

definition abort :: "'a SyncQueue \<Rightarrow> 'a SyncQueue" where
  "abort s = s\<lparr>queue := [], isProcessing := False\<rparr>"

definition process :: "'a SyncQueue \<Rightarrow> 'a SyncQueue" where
  "process s =
     (if isProcessing s then s
      else (case queue s of
              [] \<Rightarrow> s
            | nextTask # rest \<Rightarrow>
                s\<lparr>queue := rest,
                  isProcessing := True,
                  running := running s @ [fst nextTask],
                  trace := trace s @ [WorkerStart (fst nextTask) (snd nextTask)]\<rparr>))"

definition push :: "'a \<Rightarrow> 'a SyncQueue \<Rightarrow> nat \<times> 'a SyncQueue" where
  "push data s =
     (nextTicket s,
      process (s\<lparr>queue := queue s @ [(nextTicket s, data)], nextTicket := Suc (nextTicket s)\<rparr>))"

text \<open>
  The promise of the worker that runs for \<open>ticket\<close> settles: \<open>then(resolve)\<close> or
  \<open>catch(reject)\<close> settles the promise of \<open>push\<close>, and the \<open>finally\<close> callback clears the flag
  and calls \<open>process\<close>. Nothing happens for a ticket whose worker is not running.
\<close>

definition worker_settles :: "nat \<Rightarrow> outcome \<Rightarrow> 'a SyncQueue \<Rightarrow> 'a SyncQueue" where
  "worker_settles ticket result s =
     (if ticket \<notin> set (running s) then s
      else process
             (s\<lparr>running := removeAll ticket (running s),
               trace := trace s @ [WorkerEnd ticket result, PushSettled ticket result],
               isProcessing := False\<rparr>))"

text \<open>What can happen to a queue, one after the other.\<close>

datatype 'a sq_input = Push 'a | Abort | Settle nat outcome

fun sq_step :: "'a SyncQueue \<Rightarrow> 'a sq_input \<Rightarrow> 'a SyncQueue" where
  "sq_step s (Push data) = snd (push data s)"
| "sq_step s Abort = abort s"
| "sq_step s (Settle ticket result) = worker_settles ticket result s"

definition sq_run :: "'a SyncQueue \<Rightarrow> 'a sq_input list \<Rightarrow> 'a SyncQueue" where
  "sq_run s inputs = foldl sq_step s inputs"

fun is_Abort :: "'a sq_input \<Rightarrow> bool" where
  "is_Abort Abort = True"
| "is_Abort i = False"

text \<open>The ticket that an event of the trace is about.\<close>

fun event_ticket :: "'a sq_event \<Rightarrow> nat" where
  "event_ticket (WorkerStart t d) = t"
| "event_ticket (WorkerEnd t r) = t"
| "event_ticket (PushSettled t r) = t"

text \<open>
  Notions for the invariants of a run: the tickets that wait in the queue; a ticket that the
  trace does not mention (no worker started for it, nothing settled); a ticket that is gone
  for good, neither waiting nor running nor mentioned; the worker of a ticket has ended; a
  trace in which every start of a worker comes after the end of all workers with smaller
  tickets.
\<close>

definition tickets :: "'a SyncQueue \<Rightarrow> nat set" where
  "tickets s = fst ` set (queue s)"

definition untouched :: "nat \<Rightarrow> 'a SyncQueue \<Rightarrow> bool" where
  "untouched t s = (\<forall>e \<in> set (trace s). event_ticket e \<noteq> t)"

definition abandoned :: "nat \<Rightarrow> 'a SyncQueue \<Rightarrow> bool" where
  "abandoned t s =
     (t < nextTicket s \<and> t \<notin> tickets s \<and> t \<notin> set (running s) \<and> untouched t s)"

definition sq_fresh_inv :: "'a SyncQueue \<Rightarrow> bool" where
  "sq_fresh_inv s =
     (distinct (map fst (queue s))
      \<and> (\<forall>q \<in> tickets s. q < nextTicket s \<and> q \<notin> set (running s) \<and> untouched q s)
      \<and> (\<forall>t \<in> set (running s). t < nextTicket s)
      \<and> (\<forall>e \<in> set (trace s). event_ticket e < nextTicket s))"

fun is_Push :: "'a sq_input \<Rightarrow> bool" where
  "is_Push (Push d) = True"
| "is_Push i = False"

definition ended :: "nat \<Rightarrow> 'a sq_event list \<Rightarrow> bool" where
  "ended a tr = (\<exists>r. WorkerEnd a r \<in> set tr)"

definition ordered :: "'a sq_event list \<Rightarrow> bool" where
  "ordered tr =
     (\<forall>j b x a. j < length tr \<and> tr ! j = WorkerStart b x \<and> a < b \<longrightarrow>
        (\<exists>i<j. \<exists>r. tr ! i = WorkerEnd a r))"

definition sq_order_inv :: "'a SyncQueue \<Rightarrow> bool" where
  "sq_order_inv s =
     (sorted_wrt (<) (map fst (queue s))
      \<and> (\<forall>q \<in> tickets s. q < nextTicket s)
      \<and> (\<forall>a < nextTicket s. a \<in> tickets s \<or> a \<in> set (running s) \<or> ended a (trace s))
      \<and> (if isProcessing s then \<exists>t. running s = [t] else running s = [] \<and> queue s = [])
      \<and> ordered (trace s))"

section \<open>Properties\<close>

subsection \<open>Deep merge\<close>

lemma mergeObject_Cons:
  "mergeObject opts ts dest ((k, v) # ps) =
     mergeObject opts ts (AList.update k (mergedValue opts ts k v) dest) ps"
  by (simp add: mergedValue_def)

lemma map_of_mergeObject:
  "distinct (map fst ps) \<Longrightarrow>
   map_of (mergeObject opts ts dest ps) k =
     (case map_of ps k of Some v \<Rightarrow> Some (mergedValue opts ts k v) | None \<Rightarrow> map_of dest k)"
proof (induction ps arbitrary: dest)
  case Nil
  then show ?case by simp
next
  case (Cons p ps)
  obtain k' v' where p: "p = (k', v')" by (cases p)
  from Cons.prems p have d: "distinct (map fst ps)" and nk: "k' \<notin> fst ` set ps" by auto
  from nk have none: "map_of ps k' = None" by (simp add: map_of_eq_None_iff)
  show ?case
    unfolding p mergeObject_Cons Cons.IH[OF d]
    using none by (auto simp: update_conv' split: option.splits)
qed

lemma isMergeableObject_simps [simp]:
  "isMergeableObject (JObj ps)" "isMergeableObject (JArr xs)"
  "\<not> isMergeableObject (JDate d)" "\<not> isMergeableObject (JRegExp r)"
  "\<not> isMergeableObject JNull" "\<not> isMergeableObject JUndefined"
  "\<not> isMergeableObject (JBool b)" "\<not> isMergeableObject (JNum n)" "\<not> isMergeableObject (JStr s)"
  by (simp_all add: isMergeableObject_def)

lemma deepmerge_array: "deepmerge fm_opts base (JArr xs) = JArr xs"
  by (cases base) (simp_all add: arrayMerge_def)

lemma fastMerge_obj_obj:
  "fastMerge (JObj ts) (JObj ps) = JObj (mergeObject fm_opts ts ts ps)"
  by (simp add: fastMerge_def)

lemma fastMerge_nonobj_obj:
  "\<not> is_plain base \<Longrightarrow> fastMerge base (JObj ps) = JObj ps"
  by (cases base) (simp_all add: fastMerge_def)

text \<open>
  C2. Whatever the base value, a patch that is an array is the result of the merge as it
  is, and an array under a key of a plain-object patch is the value under that key in the
  result: it is never appended to or merged element by element with what the base holds.
  In particular \<open>merge({a:[1,2,3]}, {a:[4]})\<close> is \<open>{a:[4]}\<close>.
\<close>

theorem arrays_replace:
  "fastMerge base (JArr xs) = JArr xs
   \<and> (distinct (map fst ps) \<longrightarrow> map_of ps k = Some (JArr xs) \<longrightarrow>
        map_of (ownEntries (fastMerge base (JObj ps))) k = Some (JArr xs))
   \<and> fastMerge (JObj [(''a'', JArr [JNum 1, JNum 2, JNum 3])]) (JObj [(''a'', JArr [JNum 4])])
       = JObj [(''a'', JArr [JNum 4])]"
proof (intro conjI impI)
  show "fastMerge base (JArr xs) = JArr xs"
    unfolding fastMerge_def by (rule deepmerge_array)
next
  assume d: "distinct (map fst ps)" and k: "map_of ps k = Some (JArr xs)"
  show "map_of (ownEntries (fastMerge base (JObj ps))) k = Some (JArr xs)"
  proof (cases "is_plain base")
    case False
    then show ?thesis using k by (simp add: fastMerge_nonobj_obj)
  next
    case True
    then obtain ts where b: "base = JObj ts" by (cases base) simp_all
    show ?thesis
      unfolding b fastMerge_obj_obj
      using k by (simp add: map_of_mergeObject[OF d] mergedValue_def deepmerge_array
          del: deepmerge.simps split: option.splits)
  qed
next
  show "fastMerge (JObj [(''a'', JArr [JNum 1, JNum 2, JNum 3])]) (JObj [(''a'', JArr [JNum 4])])
       = JObj [(''a'', JArr [JNum 4])]"
    by (simp add: fastMerge_def arrayMerge_def)
qed

theorem arrays_replace_witness:
  "distinct (map fst [(''a'', JArr [JNum 4]), (''b'', JNum 0)])
   \<and> map_of [(''a'', JArr [JNum 4]), (''b'', JNum 0)] ''a'' = Some (JArr [JNum 4])
   \<and> map_of (ownEntries (fastMerge (JObj [(''a'', JArr [JNum 1, JNum 2, JNum 3])])
                (JObj [(''a'', JArr [JNum 4]), (''b'', JNum 0)]))) ''a'' = Some (JArr [JNum 4])"
  using arrays_replace[of "JObj [(''a'', JArr [JNum 1, JNum 2, JNum 3])]" "[JNum 4]"
      "[(''a'', JArr [JNum 4]), (''b'', JNum 0)]" "''a''"]
  by simp

lemma getPath_deepmerge_opaque:
  "wf_jsval (JObj ps) \<Longrightarrow> getPath (JObj ps) p = Some v \<Longrightarrow> is_opaque v \<Longrightarrow>
   getPath (deepmerge fm_opts base (JObj ps)) p = Some v"
proof (induction p arbitrary: base ps)
  case Nil
  then show ?case by auto
next
  case (Cons k p')
  from Cons.prems(2) obtain w where kw: "map_of ps k = Some w" and wv: "getPath w p' = Some v"
    by (auto split: option.splits)
  from Cons.prems(1) have d: "distinct (map fst ps)" by simp
  from kw have "(k, w) \<in> set ps" by (rule map_of_SomeD)
  with Cons.prems(1) have wfw: "wf_jsval w" by auto
  show ?case
  proof (cases "is_plain base")
    case False
    then have "deepmerge fm_opts base (JObj ps) = JObj ps"
      by (cases base) simp_all
    then show ?thesis using Cons.prems(2) by simp
  next
    case True
    then obtain ts where b: "base = JObj ts" by (cases base) simp_all
    have "getPath (mergedValue fm_opts ts k w) p' = Some v"
    proof (cases "map_of ts k")
      case None
      then show ?thesis using wv by (simp add: mergedValue_def)
    next
      case (Some tv)
      show ?thesis
      proof (cases "isMergeableObject w")
        case False
        then show ?thesis using wv Some by (simp add: mergedValue_def)
      next
        case True
        show ?thesis
        proof (cases p')
          case Nil
          with wv have "w = v" by simp
          with True Cons.prems(3) show ?thesis by (cases v) simp_all
        next
          case (Cons k' p'')
          with wv obtain qs where w: "w = JObj qs" by (cases w) simp_all
          have "getPath (deepmerge fm_opts tv (JObj qs)) p' = Some v"
            using Cons.IH wfw wv Cons.prems(3) unfolding w by blast
          then show ?thesis using Some True w by (simp add: mergedValue_def del: deepmerge.simps)
        qed
      qed
    qed
    then show ?thesis
      unfolding b using kw by (simp add: map_of_mergeObject[OF d])
  qed
qed

text \<open>
  C9. A \<open>Date\<close> and a \<open>RegExp\<close> are not mergeable objects, and wherever one of them stands
  in a plain-object patch, at any depth, the result of the merge holds that very value at
  the same path, whatever the base holds there: it replaces the base value and is never
  merged into key by key.
\<close>

theorem opaque_values_replace:
  "\<not> isMergeableObject (JDate d) \<and> \<not> isMergeableObject (JRegExp r)
   \<and> (wf_jsval (JObj ps) \<longrightarrow> getPath (JObj ps) p = Some v \<longrightarrow> is_opaque v \<longrightarrow>
        getPath (fastMerge base (JObj ps)) p = Some v)"
  unfolding fastMerge_def using getPath_deepmerge_opaque by simp

theorem opaque_values_replace_witness:
  "wf_jsval (JObj [(''a'', JObj [(''t'', JDate 7)])])
   \<and> getPath (JObj [(''a'', JObj [(''t'', JDate 7)])]) [''a'', ''t''] = Some (JDate 7)
   \<and> is_opaque (JDate 7)
   \<and> getPath (fastMerge (JObj [(''a'', JObj [(''t'', JObj [(''x'', JNum 1)]), (''u'', JNum 2)])])
                (JObj [(''a'', JObj [(''t'', JDate 7)])])) [''a'', ''t''] = Some (JDate 7)"
  using opaque_values_replace[of 0 "''r''" "[(''a'', JObj [(''t'', JDate 7)])]" "[''a'', ''t'']" "JDate 7"
      "JObj [(''a'', JObj [(''t'', JObj [(''x'', JNum 1)]), (''u'', JNum 2)])]"]
  by simp

lemma update_absent: "k \<notin> fst ` set al \<Longrightarrow> AList.update k v al = al @ [(k, v)]"
  by (induction al) auto

lemma update_present:
  "k \<in> fst ` set al \<Longrightarrow> distinct (map fst al) \<Longrightarrow>
   AList.update k v al = map (\<lambda>p. if fst p = k then (k, v) else p) al"
proof (induction al)
  case Nil
  then show ?case by simp
next
  case (Cons a al)
  show ?case
  proof (cases "fst a = k")
    case True
    with Cons.prems have "k \<notin> fst ` set al" by auto
    then have "map (\<lambda>p. if fst p = k then (k, v) else p) al = al"
      by (intro map_idI) auto
    with True show ?thesis by (cases a) simp
  next
    case False
    with Cons show ?thesis by (cases a) auto
  qed
qed

lemma mergeObject_closed_form:
  "distinct (map fst dest) \<Longrightarrow> distinct (map fst ps) \<Longrightarrow>
   mergeObject opts ts dest ps =
     map (\<lambda>p. (fst p, case map_of ps (fst p) of
                        None \<Rightarrow> snd p
                      | Some v \<Rightarrow> mergedValue opts ts (fst p) v)) dest
     @ map (\<lambda>p. (fst p, mergedValue opts ts (fst p) (snd p)))
         (filter (\<lambda>p. map_of dest (fst p) = None) ps)"
proof (induction ps arbitrary: dest)
  case Nil
  then show ?case by (simp add: map_idI)
next
  case (Cons p ps)
  obtain k v where p: "p = (k, v)" by (cases p)
  let ?mv = "mergedValue opts ts k v"
  let ?dest' = "AList.update k ?mv dest"
  from Cons.prems p have dps: "distinct (map fst ps)" and nk: "k \<notin> fst ` set ps" by auto
  from nk have none: "map_of ps k = None" by (simp add: map_of_eq_None_iff)
  have dd: "distinct (map fst ?dest')" using Cons.prems(1) by (rule distinct_update)
  note IH = Cons.IH[OF dd dps]
  have filt: "filter (\<lambda>q. map_of ?dest' (fst q) = None) ps
            = filter (\<lambda>q. map_of dest (fst q) = None) ps"
    using nk by (intro filter_cong refl) (auto simp: update_conv')
  show ?case
  proof (cases "k \<in> fst ` set dest")
    case True
    then have some: "map_of dest k \<noteq> None" by (simp add: map_of_eq_None_iff)
    have upd: "?dest' = map (\<lambda>q. if fst q = k then (k, ?mv) else q) dest"
      using True Cons.prems(1) by (rule update_present)
    have "map (\<lambda>q. (fst q, case map_of ps (fst q) of None \<Rightarrow> snd q
                                | Some w \<Rightarrow> mergedValue opts ts (fst q) w)) ?dest'
        = map (\<lambda>q. (fst q, case map_of ((k, v) # ps) (fst q) of None \<Rightarrow> snd q
                                | Some w \<Rightarrow> mergedValue opts ts (fst q) w)) dest"
      unfolding upd using none by (auto simp: o_def)
    then show ?thesis
      unfolding p mergeObject_Cons IH filt using some by simp
  next
    case False
    then have nn: "map_of dest k = None" by (simp add: map_of_eq_None_iff)
    have upd: "?dest' = dest @ [(k, ?mv)]" using False by (rule update_absent)
    have "map (\<lambda>q. (fst q, case map_of ps (fst q) of None \<Rightarrow> snd q
                                | Some w \<Rightarrow> mergedValue opts ts (fst q) w)) dest
        = map (\<lambda>q. (fst q, case map_of ((k, v) # ps) (fst q) of None \<Rightarrow> snd q
                                | Some w \<Rightarrow> mergedValue opts ts (fst q) w)) dest"
      using False by (intro map_cong refl) auto
    then show ?thesis
      unfolding p mergeObject_Cons IH filt unfolding upd using nn none by simp
  qed
qed

lemma deepmerge_not_both_plain:
  "\<not> (is_plain a \<and> is_plain b) \<Longrightarrow>
   (if isMergeableObject b then deepmerge fm_opts a b else b) = b"
  by (cases b; cases a) (simp_all add: arrayMerge_def)

lemma deepmerge_key_union:
  "wf_jsval a \<Longrightarrow> wf_jsval b \<Longrightarrow> is_plain a \<Longrightarrow> is_plain b \<Longrightarrow>
   deepmerge fm_opts a b = key_union a b"
proof (induction a b rule: key_union.induct)
  case (1 as bs)
  from "1.prems" have das: "distinct (map fst as)" and dbs: "distinct (map fst bs)" by simp_all
  have left: "map (\<lambda>p. (fst p, case map_of bs (fst p) of None \<Rightarrow> snd p
                              | Some v \<Rightarrow> mergedValue fm_opts as (fst p) v)) as
      = map (\<lambda>p. (fst p, case map_of bs (fst p) of None \<Rightarrow> snd p
                     | Some b \<Rightarrow> if is_plain (snd p) \<and> is_plain b then key_union (snd p) b else b)) as"
  proof (intro map_cong refl)
    fix p assume p: "p \<in> set as"
    with das have ma: "map_of as (fst p) = Some (snd p)" by (cases p) simp
    show "(fst p, case map_of bs (fst p) of None \<Rightarrow> snd p
                              | Some v \<Rightarrow> mergedValue fm_opts as (fst p) v)
      = (fst p, case map_of bs (fst p) of None \<Rightarrow> snd p
                     | Some b \<Rightarrow> if is_plain (snd p) \<and> is_plain b then key_union (snd p) b else b)"
    proof (cases "map_of bs (fst p)")
      case None
      then show ?thesis by simp
    next
      case (Some b)
      then have "(fst p, b) \<in> set bs" by (rule map_of_SomeD)
      with "1.prems"(2) have wfb: "wf_jsval b" by auto
      from p "1.prems"(1) have wfa: "wf_jsval (snd p)" by auto
      show ?thesis
      proof (cases "is_plain (snd p) \<and> is_plain b")
        case True
        then have "deepmerge fm_opts (snd p) b = key_union (snd p) b"
          using "1.IH"[OF p Some True wfa wfb] by simp
        moreover from True have "isMergeableObject b" by (cases b) simp_all
        ultimately show ?thesis using Some ma True by (simp add: mergedValue_def)
      next
        case False
        from deepmerge_not_both_plain[OF False] show ?thesis
          using Some ma False by (auto simp: mergedValue_def)
      qed
    qed
  qed
  have right: "map (\<lambda>p. (fst p, mergedValue fm_opts as (fst p) (snd p)))
                 (filter (\<lambda>p. map_of as (fst p) = None) bs)
             = filter (\<lambda>p. map_of as (fst p) = None) bs"
    by (intro map_idI) (auto simp: mergedValue_def)
  show ?case
    by (simp add: mergeObject_closed_form[OF das dbs] left right del: mergeObject.simps)
qed simp_all

text \<open>
  C3. For all plain objects \<open>A\<close> and \<open>B\<close> (with or without array values), the merge of \<open>A\<close> and
  \<open>B\<close> is their recursive key union: at a key of \<open>B\<close> two plain mappings are united
  recursively and otherwise the value of \<open>B\<close> wins, and a key that only \<open>A\<close> has keeps its
  value.
\<close>

theorem merge_is_recursive_key_union:
  "wf_jsval (JObj as) \<Longrightarrow> wf_jsval (JObj bs) \<Longrightarrow>
   fastMerge (JObj as) (JObj bs) = key_union (JObj as) (JObj bs)"
  unfolding fastMerge_def by (rule deepmerge_key_union) simp_all

theorem merge_is_recursive_key_union_witness:
  "wf_jsval (JObj [(''a'', JObj [(''x'', JNum 1)]), (''b'', JNum 2)])
   \<and> wf_jsval (JObj [(''c'', JNull), (''a'', JObj [(''y'', JStr ''z'')]), (''b'', JObj [])])
   \<and> fastMerge (JObj [(''a'', JObj [(''x'', JNum 1)]), (''b'', JNum 2)])
                (JObj [(''c'', JNull), (''a'', JObj [(''y'', JStr ''z'')]), (''b'', JObj [])])
       = JObj [(''a'', JObj [(''x'', JNum 1), (''y'', JStr ''z'')]), (''b'', JObj []), (''c'', JNull)]"
proof -
  have a: "wf_jsval (JObj [(''a'', JObj [(''x'', JNum 1)]), (''b'', JNum 2)])" by simp
  have b: "wf_jsval (JObj [(''c'', JNull), (''a'', JObj [(''y'', JStr ''z'')]), (''b'', JObj [])])" by simp
  from merge_is_recursive_key_union[OF a b] a b show ?thesis by simp
qed

subsection \<open>The cache\<close>

lemma set_set_add [simp]: "set (set_add k s) = insert k (set s)"
  by (auto simp: set_add_def)

lemma set_set_delete [simp]: "set (set_delete k s) = set s - {k}"
  by (auto simp: set_delete_def)

lemma set_foldl_set_add: "set (foldl (\<lambda>s key. set_add key s) acc xs) = set acc \<union> set xs"
  by (induction xs arbitrary: acc) auto

lemma set_new_Set [simp]: "set (new_Set xs) = set xs"
  by (simp add: new_Set_def set_foldl_set_add)

lemma keys_delete: "fst ` set (AList.delete k al) = fst ` set al - {k}"
  using delete_keys[of k al] by (metis list.set_map set_removeAll)

lemma keys_mergeObject:
  "fst ` set (mergeObject opts ts dest ps) = fst ` set dest \<union> fst ` set ps"
proof (induction ps arbitrary: dest)
  case Nil
  then show ?case by simp
next
  case (Cons p ps)
  obtain k v where p: "p = (k, v)" by (cases p)
  show ?case unfolding p mergeObject_Cons Cons.IH by (auto simp: dom_update)
qed

lemma distinct_mergeObject:
  "distinct (map fst dest) \<Longrightarrow> distinct (map fst (mergeObject opts ts dest ps))"
proof (induction ps arbitrary: dest)
  case Nil
  then show ?case by simp
next
  case (Cons p ps)
  obtain k v where p: "p = (k, v)" by (cases p)
  show ?case unfolding p mergeObject_Cons using Cons.prems by (intro Cons.IH distinct_update)
qed

lemma proto_setter_own [simp]: "own (proto_setter kind v d) = own d"
  by (simp add: proto_setter_def split: proto_kind.splits)

lemma dict_set_own:
  "dict_set a kind key v d = Inr d' \<Longrightarrow>
   own d' = own d \<or> own d' = AList.update key v (own d)"
  by (auto simp: dict_set_def split: if_splits proto.splits assign_effect.splits)

lemma dict_set_proto:
  "dict_set a kind key v d = Inr d' \<Longrightarrow> key \<noteq> ''__proto__'' \<Longrightarrow>
   proto d = ObjectPrototype \<Longrightarrow> proto d' = ObjectPrototype"
  by (auto simp: dict_set_def split: if_splits)

lemma dict_set_keys:
  "dict_set a kind key v d = Inr d' \<Longrightarrow> fst ` set (own d') \<subseteq> insert key (fst ` set (own d))"
proof -
  assume "dict_set a kind key v d = Inr d'"
  then have "own d' = own d \<or> own d' = AList.update key v (own d)" by (rule dict_set_own)
  then show ?thesis
  proof
    assume "own d' = own d"
    then show ?thesis by (simp add: subset_insertI)
  next
    assume "own d' = AList.update key v (own d)"
    then show ?thesis by (simp add: dom_update)
  qed
qed

lemma dict_set_plain:
  "proto d = ObjectPrototype \<Longrightarrow> key \<noteq> ''__proto__'' \<Longrightarrow>
   dict_set a kind key v d = Inr (d\<lparr>own := AList.update key v (own d)\<rparr>)"
  by (simp add: dict_set_def)

lemma assign_all_keys:
  "assign_all a kind d es = Inr d' \<Longrightarrow> fst ` set (own d') \<subseteq> fst ` set (own d) \<union> fst ` set es"
proof (induction es arbitrary: d)
  case Nil
  then show ?case by simp
next
  case (Cons e es)
  from Cons.prems obtain d1 where s: "dict_set a kind (fst e) (snd e) d = Inr d1"
    and r: "assign_all a kind d1 es = Inr d'"
    by (auto split: sum.splits)
  from dict_set_keys[OF s] Cons.IH[OF r] show ?case
    unfolding list.set image_insert by blast
qed

lemma foldl_addToAccessedKeys_fields [simp]:
  "storageMap (foldl (\<lambda>c' key. addToAccessedKeys key c') c ks) = storageMap c"
  "storageKeys (foldl (\<lambda>c' key. addToAccessedKeys key c') c ks) = storageKeys c"
  "pendingPromises (foldl (\<lambda>c' key. addToAccessedKeys key c') c ks) = pendingPromises c"
  "finallyCallbacks (foldl (\<lambda>c' key. addToAccessedKeys key c') c ks) = finallyCallbacks c"
  "maxRecentKeysSize (foldl (\<lambda>c' key. addToAccessedKeys key c') c ks) = maxRecentKeysSize c"
  by (induction ks arbitrary: c) (simp_all add: addToAccessedKeys_def)

lemma foldl_drop_key_fields [simp]:
  "pendingPromises (foldl (\<lambda>c' key. drop_key key c') c ks) = pendingPromises c"
  "finallyCallbacks (foldl (\<lambda>c' key. drop_key key c') c ks) = finallyCallbacks c"
  "maxRecentKeysSize (foldl (\<lambda>c' key. drop_key key c') c ks) = maxRecentKeysSize c"
  by (induction ks arbitrary: c) (simp_all add: drop_key_def)

lemma foldl_delete_task_fields [simp]:
  "storageMap (foldl (\<lambda>c' taskName. c'\<lparr>pendingPromises := dict_delete taskName (pendingPromises c')\<rparr>) c ns) = storageMap c"
  "storageKeys (foldl (\<lambda>c' taskName. c'\<lparr>pendingPromises := dict_delete taskName (pendingPromises c')\<rparr>) c ns) = storageKeys c"
  "finallyCallbacks (foldl (\<lambda>c' taskName. c'\<lparr>pendingPromises := dict_delete taskName (pendingPromises c')\<rparr>) c ns) = finallyCallbacks c"
  by (induction ns arbitrary: c) simp_all

lemma known_keys_inv_drop_key: "known_keys_inv c \<Longrightarrow> known_keys_inv (drop_key key c)"
  by (auto simp: known_keys_inv_def drop_key_def dict_keys_def dict_delete_def keys_delete)

lemma known_keys_inv_foldl_drop_key:
  "known_keys_inv c \<Longrightarrow> known_keys_inv (foldl (\<lambda>c' key. drop_key key c') c ks)"
  by (induction ks arbitrary: c) (simp_all add: known_keys_inv_drop_key)

lemma merge_guard_cases:
  "\<not> (\<not> us_isObject data \<or> us_isArray data) \<Longrightarrow>
   (\<exists>ps. data = JObj ps) \<or> (\<exists>d. data = JDate d) \<or> (\<exists>r. data = JRegExp r)"
  by (cases data) (simp_all add: us_isObject_def us_isArray_def)

lemma merged_entries_keys:
  assumes "\<not> (\<not> us_isObject data \<or> us_isArray data)"
  shows "fst ` set (ownEntries (fastMerge (JObj ts) data)) \<subseteq> fst ` set ts \<union> set (us_keys data)"
proof -
  from merge_guard_cases[OF assms] show ?thesis
  proof (elim disjE exE)
    fix ps assume d: "data = JObj ps"
    have "fst ` set (ownEntries (fastMerge (JObj ts) data)) = fst ` set ts \<union> fst ` set ps"
      unfolding d by (simp add: fastMerge_def keys_mergeObject)
    moreover have "set (us_keys data) = fst ` set ps"
      unfolding d by (simp add: us_keys_def us_isObject_def)
    ultimately show ?thesis by simp
  next
    fix dd assume "data = JDate dd"
    then show ?thesis by (simp add: fastMerge_def)
  next
    fix r assume "data = JRegExp r"
    then show ?thesis by (simp add: fastMerge_def)
  qed
qed

lemma known_keys_inv_merge: "known_keys_inv c \<Longrightarrow> known_keys_inv (snd (merge rt data c))"
proof (cases "\<not> us_isObject data \<or> us_isArray data")
  case True
  assume "known_keys_inv c"
  with True show ?thesis by (simp add: merge_def)
next
  case False
  assume inv: "known_keys_inv c"
  show ?thesis
  proof (cases "object_assign rt new_dict (fastMerge (JObj (own (storageMap c))) data)")
    case (Inl err)
    with False inv show ?thesis by (simp add: merge_def)
  next
    case (Inr d)
    then have "fst ` set (own d) \<subseteq> fst ` set (ownEntries (fastMerge (JObj (own (storageMap c))) data))"
      using assign_all_keys[of "assignThroughValue rt" value_kind new_dict _ d]
      by (simp add: object_assign_def new_dict_def)
    with merged_entries_keys[OF False, of "own (storageMap c)"]
    have "fst ` set (own d) \<subseteq> fst ` set (own (storageMap c)) \<union> set (us_keys data)" by blast
    moreover from inv have "fst ` set (own (storageMap c)) \<subseteq> set (storageKeys c)"
      by (simp add: known_keys_inv_def dict_keys_def)
    ultimately have "set (dict_keys d) \<subseteq> set (storageKeys c) \<union> set (us_keys data)"
      unfolding dict_keys_def list.set_map by blast
    then show ?thesis using False Inr
      by (simp add: merge_def Let_def known_keys_inv_def getAllKeys_def)
  qed
qed

lemma known_keys_inv_set_key: "known_keys_inv c \<Longrightarrow> known_keys_inv (snd (set_key rt key v c))"
proof -
  assume inv: "known_keys_inv c"
  let ?c2 = "addToAccessedKeys key (addKey key c)"
  show ?thesis
  proof (cases "dict_set (assignThroughValue rt) value_kind key v (storageMap ?c2)")
    case (Inl err)
    then show ?thesis using inv
      by (auto simp: set_key_def Let_def known_keys_inv_def addKey_def addToAccessedKeys_def)
  next
    case (Inr d)
    from dict_set_keys[OF Inr] have "fst ` set (own d) \<subseteq> insert key (fst ` set (own (storageMap c)))"
      by (simp add: addKey_def addToAccessedKeys_def)
    then show ?thesis using inv Inr
      by (auto simp: set_key_def Let_def known_keys_inv_def addKey_def addToAccessedKeys_def
          dict_keys_def)
  qed
qed

lemma storageMap_captureTask [simp]:
  "storageMap (snd (captureTask rt n p c)) = storageMap c"
  "storageKeys (snd (captureTask rt n p c)) = storageKeys c"
  by (simp_all add: captureTask_def Let_def split: sum.splits)

text \<open>
  C7. Every operation on the cache (\<open>getValue\<close>, \<open>addKey\<close>, \<open>set\<close>, \<open>drop\<close>, \<open>merge\<close>,
  \<open>captureTask\<close> and the settling of a captured promise, \<open>removeLeastRecentlyUsedKeys\<close>,
  \<open>setRecentKeysLimit\<close>) preserves the invariant that every key with an entry in the value
  map is a known storage key, whatever the runtime and also where an assignment throws.
\<close>

theorem known_keys_preserved:
  "known_keys_inv c \<Longrightarrow> known_keys_inv (apply_op rt c op)"
proof (cases op)
  case (OpMerge data)
  assume "known_keys_inv c"
  then show ?thesis unfolding OpMerge by (simp add: known_keys_inv_merge)
next
  case OpRemoveLeastRecentlyUsedKeys
  assume "known_keys_inv c"
  then show ?thesis unfolding OpRemoveLeastRecentlyUsedKeys
    by (simp add: removeLeastRecentlyUsedKeys_def Let_def known_keys_inv_foldl_drop_key)
next
  case (OpDrop key)
  assume "known_keys_inv c"
  then show ?thesis unfolding OpDrop by (simp add: known_keys_inv_drop_key)
next
  case (OpSettle p r)
  assume "known_keys_inv c"
  then show ?thesis unfolding OpSettle by (simp add: known_keys_inv_def settle_def)
next
  case (OpSet key v)
  assume "known_keys_inv c"
  then show ?thesis unfolding OpSet by (simp add: known_keys_inv_set_key)
next
  case (OpGetValue key)
  assume "known_keys_inv c"
  then show ?thesis unfolding OpGetValue
    by (simp add: known_keys_inv_def getValue_def Let_def addToAccessedKeys_def)
next
  case (OpAddKey key)
  assume "known_keys_inv c"
  then show ?thesis unfolding OpAddKey by (auto simp: known_keys_inv_def addKey_def)
next
  case (OpCaptureTask n p)
  assume "known_keys_inv c"
  then show ?thesis unfolding OpCaptureTask by (simp add: known_keys_inv_def)
next
  case (OpSetRecentKeysLimit l)
  assume "known_keys_inv c"
  then show ?thesis unfolding OpSetRecentKeysLimit by (simp add: known_keys_inv_def setRecentKeysLimit_def)
qed

lemma set_key_plain:
  "proto (storageMap c) = ObjectPrototype \<Longrightarrow> key \<noteq> ''__proto__'' \<Longrightarrow>
   set_key rt key v c =
     (Inr v, c\<lparr>storageKeys := set_add key (storageKeys c),
               recentKeys := set_add key (set_delete key (recentKeys c)),
               storageMap := (storageMap c)\<lparr>own := AList.update key v (own (storageMap c))\<rparr>\<rparr>)"
  by (simp add: set_key_def Let_def addKey_def addToAccessedKeys_def dict_set_plain)

theorem known_keys_preserved_witness:
  "\<forall>rt. known_keys_inv (snd (set_key rt ''a'' (JNum 1) new_OnyxCache))
        \<and> known_keys_inv (apply_op rt (snd (set_key rt ''a'' (JNum 1) new_OnyxCache))
                        (OpMerge (JObj [(''b'', JObj [(''x'', JNull)])])))"
proof
  fix rt
  have h: "known_keys_inv (snd (set_key rt ''a'' (JNum 1) new_OnyxCache))"
    by (simp add: set_key_plain new_OnyxCache_def new_dict_def known_keys_inv_def dict_keys_def)
  from known_keys_preserved[OF h, of rt "OpMerge (JObj [(''b'', JObj [(''x'', JNull)])])"] h
  show "known_keys_inv (snd (set_key rt ''a'' (JNum 1) new_OnyxCache))
        \<and> known_keys_inv (apply_op rt (snd (set_key rt ''a'' (JNum 1) new_OnyxCache))
                        (OpMerge (JObj [(''b'', JObj [(''x'', JNull)])])))" by simp
qed

lemma map_of_foldl_drop_key:
  "map_of (own (storageMap (foldl (\<lambda>c' key. drop_key key c') c ks))) x
     = (if x \<in> set ks then None else map_of (own (storageMap c)) x)"
  by (induction ks arbitrary: c) (auto simp: drop_key_def dict_delete_def delete_conv')

text \<open>
  Eviction where it works: within the limit nothing is dropped, and with a limit of at
  least one that the recent keys exceed, the least recently used key loses its entry and
  the most recently used key keeps its entry.
\<close>

lemma eviction_below_limit:
  "int (length (recentKeys c)) \<le> maxRecentKeysSize c \<Longrightarrow> removeLeastRecentlyUsedKeys c = c"
  by (simp add: removeLeastRecentlyUsedKeys_def)

lemma eviction_with_positive_limit:
  assumes limit: "1 \<le> maxRecentKeysSize c"
    and over: "maxRecentKeysSize c < int (length (recentKeys c))"
    and dist: "distinct (recentKeys c)"
  shows "map_of (own (storageMap (removeLeastRecentlyUsedKeys c))) (hd (recentKeys c)) = None"
    and "map_of (own (storageMap (removeLeastRecentlyUsedKeys c))) (last (recentKeys c))
           = map_of (own (storageMap c)) (last (recentKeys c))"
proof -
  let ?n = "nat (int (length (recentKeys c)) - maxRecentKeysSize c)"
  let ?recent = "drop ?n (recentKeys c)"
  have sl: "slice_from (- maxRecentKeysSize c) (recentKeys c) = ?recent"
    using limit over by (simp add: slice_from_def Let_def max_def)
  have look: "\<And>x. map_of (own (storageMap (removeLeastRecentlyUsedKeys c))) x
      = (if x \<in> fst ` set (own (storageMap c)) \<and> x \<notin> set ?recent then None
         else map_of (own (storageMap c)) x)"
    using over by (simp add: removeLeastRecentlyUsedKeys_def Let_def sl map_of_foldl_drop_key
        us_difference_def dict_keys_def)
  from over limit obtain lru rest where rk: "recentKeys c = lru # rest"
    by (cases "recentKeys c") auto
  have n1: "1 \<le> ?n" and nl: "?n < length (recentKeys c)" using limit over by auto
  from n1 obtain m where m: "?n = Suc m" by (cases ?n) auto
  have "?recent = drop (Suc m) (lru # rest)" by (simp only: m, simp only: rk)
  then have "set ?recent \<subseteq> set rest" by (simp add: set_drop_subset)
  with dist rk have "lru \<notin> set ?recent" by auto
  then have "map_of (own (storageMap (removeLeastRecentlyUsedKeys c))) lru = None"
    unfolding look by (auto simp: map_of_eq_None_iff)
  then show "map_of (own (storageMap (removeLeastRecentlyUsedKeys c))) (hd (recentKeys c)) = None"
    by (simp add: rk)
  from nl have "?recent \<noteq> []" by simp
  then have "last ?recent \<in> set ?recent" by (rule last_in_set)
  moreover from nl have "last ?recent = last (recentKeys c)" by (rule last_drop)
  ultimately have "last (recentKeys c) \<in> set ?recent" by simp
  then show "map_of (own (storageMap (removeLeastRecentlyUsedKeys c))) (last (recentKeys c))
           = map_of (own (storageMap c)) (last (recentKeys c))"
    by (simp add: look)
qed

text \<open>
  C6, at the limit that a new cache has. With \<open>maxRecentKeysSize = 0\<close>, after \<open>set('a', 1)\<close>
  and \<open>set('b', 2)\<close> the recently used keys outnumber the limit, and yet
  \<open>removeLeastRecentlyUsedKeys\<close> changes nothing: \<open>slice(-0)\<close> is \<open>slice(0)\<close>, the whole list
  of recent keys, so no key is found to remove and the least recently used key \<open>a\<close> keeps
  its entry.
\<close>

theorem eviction_with_zero_limit:
  "maxRecentKeysSize (snd (set_key rt ''b'' (JNum 2) (snd (set_key rt ''a'' (JNum 1) new_OnyxCache)))) = 0
   \<and> recentKeys (snd (set_key rt ''b'' (JNum 2) (snd (set_key rt ''a'' (JNum 1) new_OnyxCache)))) = [''a'', ''b'']
   \<and> removeLeastRecentlyUsedKeys (snd (set_key rt ''b'' (JNum 2) (snd (set_key rt ''a'' (JNum 1) new_OnyxCache))))
       = snd (set_key rt ''b'' (JNum 2) (snd (set_key rt ''a'' (JNum 1) new_OnyxCache)))
   \<and> hasCacheForKey rt ''a''
        (removeLeastRecentlyUsedKeys (snd (set_key rt ''b'' (JNum 2) (snd (set_key rt ''a'' (JNum 1) new_OnyxCache)))))"
  by (simp add: set_key_plain new_OnyxCache_def new_dict_def set_add_def
      set_delete_def removeLeastRecentlyUsedKeys_def slice_from_def us_difference_def
      hasCacheForKey_def dict_get_def dict_keys_def Let_def)


text \<open>
  What the prototype shows through: a new cache has a defined value under \<open>toString\<close>; an
  assignment to \<open>__proto__\<close> stores nothing, and the key reads as the prototype; a task
  named \<open>constructor\<close> still reads as defined after its cleanup has run.
\<close>

lemma inherited_names_read_as_defined:
  "hasCacheForKey rt ''toString'' new_OnyxCache"
  "fst (getValue rt ''__proto__'' (snd (set_key rt ''__proto__'' (JNum 5) new_OnyxCache)))
     = Builtin ''__proto__''"
  "hasPendingTask rt ''constructor''
     (settle 1 result (snd (captureTask rt ''constructor'' 1 new_OnyxCache)))"
  by (simp_all add: hasCacheForKey_def hasPendingTask_def getValue_def set_key_def captureTask_def
      settle_def Let_def new_OnyxCache_def new_dict_def dict_get_def dict_set_def dict_delete_def
      proto_setter_def addKey_def addToAccessedKeys_def objectPrototypeKeys_def)


text \<open>
  C5, as stated, fails: a \<open>Date\<close> is not a plain mapping, and \<open>merge\<close> accepts it as a patch.
  The guard asks \<open>_.isObject\<close>, which holds of every object.
\<close>

theorem merge_accepts_date_counterexample:
  "\<not> is_plain (JDate 7) \<and> (\<forall>rt. fst (merge rt (JDate 7) new_OnyxCache) = Inr ())"
  by (simp add: merge_def us_isObject_def us_isArray_def fastMerge_def object_assign_def Let_def)

lemma refused_patch_guard: "refused_patch data = (\<not> us_isObject data \<or> us_isArray data)"
  by (cases data) (simp_all add: us_isObject_def us_isArray_def)

text \<open>
  C5, amended. \<open>merge\<close> throws its error exactly when the patch is \<open>undefined\<close>, \<open>null\<close>, a
  boolean, a number, a string or an array, and never for a plain object, a \<open>Date\<close> or a
  \<open>RegExp\<close>; when it throws it, the cache is exactly the cache before the call: value map,
  known keys and recently used keys are untouched.
\<close>

theorem merge_refuses_exactly_non_objects:
  "(fst (merge rt data c)
      = Inl (Error ''data passed to cache.merge() must be an Object of onyx key/value pairs''))
     = refused_patch data
   \<and> (refused_patch data \<longrightarrow> snd (merge rt data c) = c)"
proof (cases "refused_patch data")
  case True
  then show ?thesis by (simp add: merge_def refused_patch_guard)
next
  case False
  then have g: "\<not> (\<not> us_isObject data \<or> us_isArray data)" by (simp add: refused_patch_guard)
  have "fst (merge rt data c)
      \<noteq> Inl (Error ''data passed to cache.merge() must be an Object of onyx key/value pairs'')"
  proof (cases "object_assign rt new_dict (fastMerge (JObj (own (storageMap c))) data)")
    case (Inl err)
    then have "err = TypeError"
    proof -
      have "\<And>d es. assign_all (assignThroughValue rt) value_kind d es = Inl err \<Longrightarrow> err = TypeError"
      proof -
        fix d es show "assign_all (assignThroughValue rt) value_kind d es = Inl err \<Longrightarrow> err = TypeError"
          by (induction es arbitrary: d)
             (auto simp: dict_set_def split: sum.splits if_splits proto.splits assign_effect.splits)
      qed
      with Inl show ?thesis by (simp add: object_assign_def)
    qed
    with Inl g show ?thesis by (simp add: merge_def)
  next
    case (Inr d)
    with g show ?thesis by (simp add: merge_def Let_def)
  qed
  with False show ?thesis by simp
qed

theorem merge_refuses_exactly_non_objects_witness:
  "\<forall>rt. refused_patch (JArr [JNum 1])
     \<and> merge rt (JArr [JNum 1]) new_OnyxCache
         = (Inl (Error ''data passed to cache.merge() must be an Object of onyx key/value pairs''),
            new_OnyxCache)"
proof
  fix rt
  have r: "refused_patch (JArr [JNum 1])" by simp
  from merge_refuses_exactly_non_objects[of rt "JArr [JNum 1]" new_OnyxCache] r
  show "refused_patch (JArr [JNum 1])
     \<and> merge rt (JArr [JNum 1]) new_OnyxCache
         = (Inl (Error ''data passed to cache.merge() must be an Object of onyx key/value pairs''),
            new_OnyxCache)"
    by (simp add: prod_eq_iff)
qed

text \<open>
  C10, as stated, fails at the key \<open>__proto__\<close>: after a merge of the patch that maps
  \<open>__proto__\<close> to \<open>null\<close> into a new cache, \<open>getValue('__proto__')\<close> is not \<open>null\<close>. The value
  map is a plain object, and no assignment stores an entry under that name.
\<close>

theorem null_under_proto_key_counterexample:
  "\<forall>rt. fst (merge rt (JObj [(''__proto__'', JNull)]) new_OnyxCache) = Inr ()
        \<and> fst (getValue rt ''__proto__'' (snd (merge rt (JObj [(''__proto__'', JNull)]) new_OnyxCache)))
            \<noteq> Value JNull"
proof
  fix rt
  let ?c = "snd (merge rt (JObj [(''__proto__'', JNull)]) new_OnyxCache)"
  have assign: "object_assign rt new_dict (fastMerge (JObj []) (JObj [(''__proto__'', JNull)]))
      = Inr \<lparr>own = [], proto = NullPrototype\<rparr>"
    by (simp add: object_assign_def fastMerge_def new_dict_def dict_set_def proto_setter_def)
  have ok: "fst (merge rt (JObj [(''__proto__'', JNull)]) new_OnyxCache) = Inr ()"
    using assign
    by (simp add: merge_def us_isObject_def us_isArray_def Let_def new_OnyxCache_def new_dict_def)
  have "storageMap ?c = \<lparr>own = [], proto = NullPrototype\<rparr>"
    using assign
    by (simp add: merge_def us_isObject_def us_isArray_def Let_def new_OnyxCache_def new_dict_def)
  then have "fst (getValue rt ''__proto__'' ?c) = Missing"
    by (simp add: getValue_def Let_def addToAccessedKeys_def dict_get_def)
  with ok show "fst (merge rt (JObj [(''__proto__'', JNull)]) new_OnyxCache) = Inr ()
        \<and> fst (getValue rt ''__proto__'' ?c) \<noteq> Value JNull"
    by simp
qed

lemma map_of_foldl_update:
  "distinct (map fst es) \<Longrightarrow>
   map_of (foldl (\<lambda>al e. AList.update (fst e) (snd e) al) acc es) k
     = (case map_of es k of Some v \<Rightarrow> Some v | None \<Rightarrow> map_of acc k)"
proof (induction es arbitrary: acc)
  case Nil
  then show ?case by simp
next
  case (Cons e es)
  from Cons.prems have d: "distinct (map fst es)" and nk: "fst e \<notin> fst ` set es" by auto
  from nk have none: "map_of es (fst e) = None" by (simp add: map_of_eq_None_iff)
  show ?case
    using none by (cases e) (auto simp: Cons.IH[OF d] update_conv' split: option.splits)
qed

lemma assign_all_plain:
  "proto d = ObjectPrototype \<Longrightarrow> ''__proto__'' \<notin> fst ` set es \<Longrightarrow>
   assign_all a kind d es
     = Inr (d\<lparr>own := foldl (\<lambda>al e. AList.update (fst e) (snd e) al) (own d) es\<rparr>)"
proof (induction es arbitrary: d)
  case Nil
  then show ?case by simp
next
  case (Cons e es)
  from Cons.prems have ne: "fst e \<noteq> ''__proto__''" and rest: "''__proto__'' \<notin> fst ` set es"
    by auto
  have s: "dict_set a kind (fst e) (snd e) d = Inr (d\<lparr>own := AList.update (fst e) (snd e) (own d)\<rparr>)"
    using Cons.prems(1) ne by (rule dict_set_plain)
  have "proto (d\<lparr>own := AList.update (fst e) (snd e) (own d)\<rparr>) = ObjectPrototype"
    using Cons.prems(1) by simp
  from Cons.IH[OF this rest] show ?case by (simp add: s)
qed

text \<open>
  C10, amended. For every key that is not the name of a property of \<open>Object.prototype\<close>,
  merging a plain-object patch that maps the key to \<open>null\<close>, whatever else the patch holds
  under other names than \<open>__proto__\<close>, into a cache whose value map has no entry named
  \<open>__proto__\<close>, succeeds and stores \<open>null\<close> under the key: afterwards \<open>getValue\<close> returns
  \<open>null\<close> for it and \<open>hasCacheForKey\<close> is true. The cache does not read \<open>null\<close> as a
  deletion.
\<close>

theorem null_is_cached_for_plain_keys:
  assumes k: "k \<notin> set objectPrototypeKeys"
    and ps: "plain_entries ps"
    and null: "map_of ps k = Some JNull"
    and store: "plain_entries (own (storageMap c))"
  shows "fst (merge rt (JObj ps) c) = Inr ()
         \<and> fst (getValue rt k (snd (merge rt (JObj ps) c))) = Value JNull
         \<and> hasCacheForKey rt k (snd (merge rt (JObj ps) c))"
proof -
  let ?ts = "own (storageMap c)"
  let ?es = "mergeObject fm_opts ?ts ?ts ps"
  let ?d = "new_dict\<lparr>own := foldl (\<lambda>al e. AList.update (fst e) (snd e) al) [] ?es\<rparr>"
  from ps store have dps: "distinct (map fst ps)" and dts: "distinct (map fst ?ts)"
    and np: "''__proto__'' \<notin> fst ` set ?es"
    by (simp_all add: plain_entries_def keys_mergeObject)
  have des: "distinct (map fst ?es)" using dts by (rule distinct_mergeObject)
  have assign: "object_assign rt new_dict (fastMerge (JObj ?ts) (JObj ps)) = Inr ?d"
    using assign_all_plain[of new_dict ?es "assignThroughValue rt" value_kind] np
    by (simp add: object_assign_def fastMerge_def new_dict_def)
  have guard: "\<not> (\<not> us_isObject (JObj ps) \<or> us_isArray (JObj ps))"
    by (simp add: us_isObject_def us_isArray_def)
  have sm: "storageMap (snd (merge rt (JObj ps) c)) = ?d"
    using guard assign by (simp add: merge_def Let_def)
  have ok: "fst (merge rt (JObj ps) c) = Inr ()"
    using guard assign by (simp add: merge_def Let_def)
  have "map_of ?es k = Some (mergedValue fm_opts ?ts k JNull)"
    using null by (simp add: map_of_mergeObject[OF dps])
  then have "map_of ?es k = Some JNull"
    by (simp add: mergedValue_def split: option.splits)
  then have "map_of (own ?d) k = Some JNull"
    by (simp add: map_of_foldl_update[OF des])
  then have "dict_get (inheritedFromValue rt) ?d k = Value JNull"
    by (simp add: dict_get_def)
  then show ?thesis
    using ok sm by (simp add: getValue_def Let_def addToAccessedKeys_def hasCacheForKey_def)
qed

theorem null_is_cached_for_plain_keys_witness:
  "\<forall>rt. ''report'' \<notin> set objectPrototypeKeys
     \<and> plain_entries [(''draft'', JObj [(''x'', JNull)]), (''report'', JNull)]
     \<and> fst (merge rt (JObj [(''draft'', JObj [(''x'', JNull)]), (''report'', JNull)])
              (snd (set_key rt ''report'' (JNum 3) new_OnyxCache))) = Inr ()
     \<and> fst (getValue rt ''report''
              (snd (merge rt (JObj [(''draft'', JObj [(''x'', JNull)]), (''report'', JNull)])
                     (snd (set_key rt ''report'' (JNum 3) new_OnyxCache))))) = Value JNull
     \<and> hasCacheForKey rt ''report''
              (snd (merge rt (JObj [(''draft'', JObj [(''x'', JNull)]), (''report'', JNull)])
                     (snd (set_key rt ''report'' (JNum 3) new_OnyxCache))))"
proof
  fix rt
  let ?ps = "[(''draft'', JObj [(''x'', JNull)]), (''report'', JNull)]"
  let ?c = "snd (set_key rt ''report'' (JNum 3) new_OnyxCache)"
  have k: "''report'' \<notin> set objectPrototypeKeys" by (simp add: objectPrototypeKeys_def)
  have ps: "plain_entries ?ps" by (simp add: plain_entries_def)
  have null: "map_of ?ps ''report'' = Some JNull" by simp
  have store: "plain_entries (own (storageMap ?c))"
    by (simp add: set_key_plain new_OnyxCache_def new_dict_def plain_entries_def)
  from null_is_cached_for_plain_keys[OF k ps null store, of rt] k ps
  show "''report'' \<notin> set objectPrototypeKeys
     \<and> plain_entries ?ps
     \<and> fst (merge rt (JObj ?ps) ?c) = Inr ()
     \<and> fst (getValue rt ''report'' (snd (merge rt (JObj ?ps) ?c))) = Value JNull
     \<and> hasCacheForKey rt ''report'' (snd (merge rt (JObj ?ps) ?c))"
    by simp
qed


lemma foldl_delete_task_proto [simp]:
  "proto (pendingPromises (foldl (\<lambda>c' taskName. c'\<lparr>pendingPromises := dict_delete taskName (pendingPromises c')\<rparr>) c ns))
     = proto (pendingPromises c)"
  by (induction ns arbitrary: c) (simp_all add: dict_delete_def)

lemma map_of_foldl_delete_task:
  "map_of (own (pendingPromises (foldl (\<lambda>c' taskName. c'\<lparr>pendingPromises := dict_delete taskName (pendingPromises c')\<rparr>) c ns))) n
     = (if n \<in> set ns then None else map_of (own (pendingPromises c)) n)"
  by (induction ns arbitrary: c) (auto simp: dict_delete_def delete_conv')

lemma distinct_foldl_delete_task:
  "distinct (map fst (own (pendingPromises c))) \<Longrightarrow>
   distinct (map fst (own (pendingPromises (foldl (\<lambda>c' taskName. c'\<lparr>pendingPromises := dict_delete taskName (pendingPromises c')\<rparr>) c ns))))"
  by (induction ns arbitrary: c) (simp_all add: dict_delete_def distinct_delete)

lemma pendingPromises_merge [simp]:
  "pendingPromises (snd (merge rt data c)) = pendingPromises c"
  "finallyCallbacks (snd (merge rt data c)) = finallyCallbacks c"
  by (simp_all add: merge_def Let_def split: sum.splits)

lemma pendingPromises_set_key [simp]:
  "pendingPromises (snd (set_key rt key v c)) = pendingPromises c"
  "finallyCallbacks (snd (set_key rt key v c)) = finallyCallbacks c"
  by (simp_all add: set_key_def Let_def addKey_def addToAccessedKeys_def split: sum.splits)

lemma removeLeastRecentlyUsedKeys_fields [simp]:
  "pendingPromises (removeLeastRecentlyUsedKeys c) = pendingPromises c"
  "finallyCallbacks (removeLeastRecentlyUsedKeys c) = finallyCallbacks c"
  by (simp_all add: removeLeastRecentlyUsedKeys_def Let_def)

lemma distinct_dict_set:
  "dict_set a kind key v d = Inr d' \<Longrightarrow> distinct (map fst (own d)) \<Longrightarrow> distinct (map fst (own d'))"
  using dict_set_own[of a kind key v d d'] by (auto simp: distinct_update)

lemma one_record_per_task_step:
  "distinct (map fst (own (pendingPromises c))) \<Longrightarrow>
   distinct (map fst (own (pendingPromises (apply_op rt c op))))"
proof (cases op)
  case (OpCaptureTask n p)
  assume d: "distinct (map fst (own (pendingPromises c)))"
  show ?thesis unfolding OpCaptureTask
    using d distinct_dict_set[of "assignThroughPromise rt" "\<lambda>p. KindObject" n p "pendingPromises c"]
    by (auto simp: captureTask_def Let_def split: sum.splits)
next
  case (OpSettle p r)
  assume "distinct (map fst (own (pendingPromises c)))"
  then show ?thesis unfolding OpSettle by (simp add: settle_def distinct_foldl_delete_task)
qed (simp_all add: getValue_def Let_def addToAccessedKeys_def addKey_def drop_key_def
       setRecentKeysLimit_def)

lemma one_record_per_task_run:
  "distinct (map fst (own (pendingPromises c))) \<Longrightarrow>
   distinct (map fst (own (pendingPromises (foldl (apply_op rt) c ops))))"
  by (induction ops arbitrary: c) (simp_all add: one_record_per_task_step)

text \<open>
  C4, as stated, fails when a task name is captured twice: the cleanup deletes by name, so
  when the first promise settles, the record that was captured for the second promise is
  removed although the second promise has not settled.
\<close>

theorem newer_record_removed_by_older_cleanup_counterexample:
  "\<forall>rt. getTaskPromise rt ''get:a''
          (snd (captureTask rt ''get:a'' 2 (snd (captureTask rt ''get:a'' 1 new_OnyxCache))))
        = Value 2
      \<and> \<not> hasPendingTask rt ''get:a''
          (settle 1 (Fulfilled JNull)
             (snd (captureTask rt ''get:a'' 2 (snd (captureTask rt ''get:a'' 1 new_OnyxCache)))))"
  by (simp add: captureTask_def Let_def new_OnyxCache_def new_dict_def dict_set_def
      getTaskPromise_def hasPendingTask_def dict_get_def settle_def dict_delete_def
      objectPrototypeKeys_def)

lemma holds_record_step:
  assumes h: "holds_record n p c"
    and op: "\<not> settles p op" "\<not> captures n op" "\<not> captures ''__proto__'' op"
  shows "holds_record n p (apply_op rt c op)"
proof (cases op)
  case (OpCaptureTask m q)
  with op have mn: "m \<noteq> n" and mp: "m \<noteq> ''__proto__''" by simp_all
  from h have pr: "proto (pendingPromises c) = ObjectPrototype" by (simp add: holds_record_def)
  have "dict_set (assignThroughPromise rt) (\<lambda>p. KindObject) m q (pendingPromises c)
      = Inr ((pendingPromises c)\<lparr>own := AList.update m q (own (pendingPromises c))\<rparr>)"
    using pr mp by (rule dict_set_plain)
  then show ?thesis unfolding OpCaptureTask using h mn
    by (auto simp: holds_record_def captureTask_def Let_def update_conv')
next
  case (OpSettle q r)
  with op have qp: "q \<noteq> p" by simp
  from h have own: "\<forall>cb \<in> set (finallyCallbacks c). snd cb = n \<longrightarrow> fst cb = p"
    by (simp add: holds_record_def)
  with qp have "n \<notin> set (map snd (filter (\<lambda>cb. fst cb = q) (finallyCallbacks c)))" by auto
  then show ?thesis unfolding OpSettle using h qp
    by (auto simp: holds_record_def settle_def map_of_foldl_delete_task)
qed (insert h, simp_all add: holds_record_def getValue_def Let_def addToAccessedKeys_def addKey_def
       drop_key_def setRecentKeysLimit_def)

lemma holds_record_run:
  "holds_record n p c \<Longrightarrow>
   \<forall>op \<in> set ops. \<not> settles p op \<and> \<not> captures n op \<and> \<not> captures ''__proto__'' op \<Longrightarrow>
   holds_record n p (foldl (apply_op rt) c ops)"
  by (induction ops arbitrary: c) (simp_all add: holds_record_step)

lemma holds_record_capture:
  assumes "n \<noteq> ''__proto__''" "proto (pendingPromises c) = ObjectPrototype"
    and "\<forall>cb \<in> set (finallyCallbacks c). snd cb \<noteq> n"
  shows "holds_record n p (snd (captureTask rt n p c))"
proof -
  have "dict_set (assignThroughPromise rt) (\<lambda>p. KindObject) n p (pendingPromises c)
      = Inr ((pendingPromises c)\<lparr>own := AList.update n p (own (pendingPromises c))\<rparr>)"
    using assms(2,1) by (rule dict_set_plain)
  then show ?thesis using assms
    by (auto simp: holds_record_def captureTask_def Let_def update_conv')
qed

text \<open>
  C4, amended. In every state that the operations reach from a new cache, no task name has
  more than one record. Let a promise be captured under a task name that is not the name
  of a property of \<open>Object.prototype\<close>, in a cache where no cleanup is attached under that
  name and the prototype of \<open>pendingPromises\<close> has not been replaced. Then for as long as the
  promise is pending and nothing is captured under that name or under \<open>__proto__\<close>, the
  task name reads as that promise; and once the promise settles, fulfilled or rejected,
  the record is gone and the task is no longer pending.
\<close>

theorem captured_task_lasts_until_settlement:
  assumes name: "taskName \<notin> set objectPrototypeKeys"
    and plain: "proto (pendingPromises c) = ObjectPrototype"
    and fresh: "\<forall>cb \<in> set (finallyCallbacks c). snd cb \<noteq> taskName"
    and quiet: "\<forall>op \<in> set ops. \<not> settles promise op \<and> \<not> captures taskName op
                  \<and> \<not> captures ''__proto__'' op"
  shows "distinct (map fst (own (pendingPromises (foldl (apply_op rt) new_OnyxCache ops0))))
     \<and> (\<forall>i. getTaskPromise rt taskName
              (foldl (apply_op rt) (snd (captureTask rt taskName promise c)) (take i ops))
            = Value promise)
     \<and> map_of (own (pendingPromises
          (settle promise result
             (foldl (apply_op rt) (snd (captureTask rt taskName promise c)) ops)))) taskName = None
     \<and> \<not> hasPendingTask rt taskName
          (settle promise result
             (foldl (apply_op rt) (snd (captureTask rt taskName promise c)) ops))"
proof (intro conjI allI)
  show "distinct (map fst (own (pendingPromises (foldl (apply_op rt) new_OnyxCache ops0))))"
    by (rule one_record_per_task_run) (simp add: new_OnyxCache_def new_dict_def)
next
  from name have np: "taskName \<noteq> ''__proto__''" by (auto simp: objectPrototypeKeys_def)
  let ?c1 = "snd (captureTask rt taskName promise c)"
  have h1: "holds_record taskName promise ?c1"
    using np plain fresh by (rule holds_record_capture)
  {
    fix i
    from quiet have "\<forall>op \<in> set (take i ops). \<not> settles promise op \<and> \<not> captures taskName op
                  \<and> \<not> captures ''__proto__'' op"
      by (meson in_set_takeD)
    with h1 have "holds_record taskName promise (foldl (apply_op rt) ?c1 (take i ops))"
      by (rule holds_record_run)
    then show "getTaskPromise rt taskName (foldl (apply_op rt) ?c1 (take i ops)) = Value promise"
      by (simp add: holds_record_def getTaskPromise_def dict_get_def)
  }
  let ?c2 = "foldl (apply_op rt) ?c1 ops"
  from h1 quiet have h2: "holds_record taskName promise ?c2" by (rule holds_record_run)
  then have "taskName \<in> set (map snd (filter (\<lambda>cb. fst cb = promise) (finallyCallbacks ?c2)))"
    by (force simp: holds_record_def)
  then show gone: "map_of (own (pendingPromises (settle promise result ?c2))) taskName = None"
    by (simp add: settle_def map_of_foldl_delete_task)
  from h2 have "proto (pendingPromises (settle promise result ?c2)) = ObjectPrototype"
    by (simp add: settle_def holds_record_def)
  with gone name show "\<not> hasPendingTask rt taskName (settle promise result ?c2)"
    by (simp add: hasPendingTask_def dict_get_def)
qed

theorem captured_task_lasts_until_settlement_witness:
  "\<forall>rt. ''get:a'' \<notin> set objectPrototypeKeys
     \<and> \<not> settles 1 (OpCaptureTask ''get:b'' 2)
     \<and> getTaskPromise rt ''get:a''
          (foldl (apply_op rt) (snd (captureTask rt ''get:a'' 1 new_OnyxCache))
             [OpCaptureTask ''get:b'' 2, OpSettle 2 (Fulfilled JNull)]) = Value 1
     \<and> \<not> hasPendingTask rt ''get:a''
          (settle 1 (Rejected JNull)
             (foldl (apply_op rt) (snd (captureTask rt ''get:a'' 1 new_OnyxCache))
                [OpCaptureTask ''get:b'' 2, OpSettle 2 (Fulfilled JNull)]))"
proof
  fix rt
  let ?ops = "[OpCaptureTask ''get:b'' 2, OpSettle 2 (Fulfilled JNull)]"
  have name: "''get:a'' \<notin> set objectPrototypeKeys" by (simp add: objectPrototypeKeys_def)
  have plain: "proto (pendingPromises new_OnyxCache) = ObjectPrototype"
    by (simp add: new_OnyxCache_def new_dict_def)
  have fresh: "\<forall>cb \<in> set (finallyCallbacks new_OnyxCache). snd cb \<noteq> ''get:a''"
    by (simp add: new_OnyxCache_def)
  have quiet: "\<forall>op \<in> set ?ops. \<not> settles 1 op \<and> \<not> captures ''get:a'' op
                  \<and> \<not> captures ''__proto__'' op" by simp
  note t = captured_task_lasts_until_settlement[OF name plain fresh quiet, of rt "[]" "Rejected JNull"]
  from t have "\<forall>i. getTaskPromise rt ''get:a''
              (foldl (apply_op rt) (snd (captureTask rt ''get:a'' 1 new_OnyxCache)) (take i ?ops))
            = Value 1" by blast
  then have "getTaskPromise rt ''get:a''
              (foldl (apply_op rt) (snd (captureTask rt ''get:a'' 1 new_OnyxCache)) (take 2 ?ops))
            = Value 1" by (rule spec)
  then have last: "getTaskPromise rt ''get:a''
              (foldl (apply_op rt) (snd (captureTask rt ''get:a'' 1 new_OnyxCache)) ?ops)
            = Value 1" by simp
  from t last name show "''get:a'' \<notin> set objectPrototypeKeys
     \<and> \<not> settles 1 (OpCaptureTask ''get:b'' 2)
     \<and> getTaskPromise rt ''get:a''
          (foldl (apply_op rt) (snd (captureTask rt ''get:a'' 1 new_OnyxCache)) ?ops) = Value 1
     \<and> \<not> hasPendingTask rt ''get:a''
          (settle 1 (Rejected JNull)
             (foldl (apply_op rt) (snd (captureTask rt ''get:a'' 1 new_OnyxCache)) ?ops))"
    by simp
qed


subsection \<open>The queue\<close>

lemma ended_append [simp]: "ended a (tr @ es) = (ended a tr \<or> ended a es)"
  by (auto simp: ended_def)

lemma ended_simps [simp]:
  "\<not> ended a []"
  "ended a (WorkerEnd t r # es) = (a = t \<or> ended a es)"
  "ended a (WorkerStart t x # es) = ended a es"
  "ended a (PushSettled t r # es) = ended a es"
  by (auto simp: ended_def)

lemma ordered_snoc:
  assumes o: "ordered tr"
    and e: "\<And>b x a. e = WorkerStart b x \<Longrightarrow> a < b \<Longrightarrow> ended a tr"
  shows "ordered (tr @ [e])"
  unfolding ordered_def
proof (intro allI impI, elim conjE)
  fix j b x a
  assume j: "j < length (tr @ [e])" and st: "(tr @ [e]) ! j = WorkerStart b x" and ab: "a < b"
  show "\<exists>i<j. \<exists>r. (tr @ [e]) ! i = WorkerEnd a r"
  proof (cases "j < length tr")
    case True
    with st have "tr ! j = WorkerStart b x" by (simp add: nth_append)
    with o True ab obtain i r where "i < j" "tr ! i = WorkerEnd a r"
      unfolding ordered_def by blast
    with True show ?thesis by (auto simp: nth_append intro!: exI[of _ i])
  next
    case False
    with j have jl: "j = length tr" by simp
    with st have "e = WorkerStart b x" by simp
    from e[OF this ab] obtain r where "WorkerEnd a r \<in> set tr" by (auto simp: ended_def)
    then obtain i where "i < length tr" "tr ! i = WorkerEnd a r" by (auto simp: in_set_conv_nth)
    with jl show ?thesis by (auto simp: nth_append intro!: exI[of _ i])
  qed
qed

lemma ordered_snoc_end: "ordered tr \<Longrightarrow> ordered (tr @ [WorkerEnd t r])"
  by (rule ordered_snoc) simp_all

lemma ordered_snoc_settled: "ordered tr \<Longrightarrow> ordered (tr @ [PushSettled t r])"
  by (rule ordered_snoc) simp_all

lemma ordered_snoc_start:
  "ordered tr \<Longrightarrow> (\<And>a. a < t \<Longrightarrow> ended a tr) \<Longrightarrow> ordered (tr @ [WorkerStart t x])"
  by (rule ordered_snoc) simp_all

lemma order_inv_new: "sq_order_inv new_SyncQueue"
  by (simp add: sq_order_inv_def new_SyncQueue_def tickets_def ordered_def)

lemma order_inv_push:
  assumes inv: "sq_order_inv s"
  shows "sq_order_inv (snd (push d s))"
proof (cases "isProcessing s")
  case True
  then have eq: "snd (push d s) = s\<lparr>queue := queue s @ [(nextTicket s, d)], nextTicket := Suc (nextTicket s)\<rparr>"
    by (simp add: push_def process_def)
  show ?thesis
    unfolding eq using inv True
    by (auto simp: sq_order_inv_def tickets_def sorted_wrt_append less_Suc_eq)
next
  case False
  with inv have q: "queue s = []" and r: "running s = []" by (auto simp: sq_order_inv_def)
  have eq: "snd (push d s) = s\<lparr>queue := [], nextTicket := Suc (nextTicket s), isProcessing := True,
      running := [nextTicket s], trace := trace s @ [WorkerStart (nextTicket s) d]\<rparr>"
    using False q r by (simp add: push_def process_def)
  have fin: "\<And>a. a < nextTicket s \<Longrightarrow> ended a (trace s)"
    using inv q r by (auto simp: sq_order_inv_def tickets_def)
  have "ordered (trace s @ [WorkerStart (nextTicket s) d])"
    using inv fin by (intro ordered_snoc_start) (auto simp: sq_order_inv_def)
  then show ?thesis
    unfolding eq using fin by (auto simp: sq_order_inv_def tickets_def less_Suc_eq)
qed

lemma order_inv_settle:
  assumes inv: "sq_order_inv s"
  shows "sq_order_inv (worker_settles t r s)"
proof (cases "t \<in> set (running s)")
  case False
  then show ?thesis using inv by (simp add: worker_settles_def)
next
  case True
  with inv have run: "running s = [t]" by (auto simp: sq_order_inv_def split: if_splits)
  let ?tr = "trace s @ [WorkerEnd t r, PushSettled t r]"
  have otr: "ordered ?tr"
    using inv ordered_snoc_settled[OF ordered_snoc_end, of "trace s" t r t r]
    by (simp add: sq_order_inv_def)
  show ?thesis
  proof (cases "queue s")
    case Nil
    have eq: "worker_settles t r s = s\<lparr>running := [], trace := ?tr, isProcessing := False\<rparr>"
      using True run Nil by (simp add: worker_settles_def process_def)
    show ?thesis unfolding eq using inv otr run Nil
      by (auto simp: sq_order_inv_def tickets_def)
  next
    case (Cons nextTask rest)
    have eq: "worker_settles t r s = s\<lparr>running := [fst nextTask],
        trace := ?tr @ [WorkerStart (fst nextTask) (snd nextTask)],
        isProcessing := True, queue := rest\<rparr>"
      using True run Cons by (simp add: worker_settles_def process_def)
    have head: "\<forall>q \<in> fst ` set rest. fst nextTask < q"
      using inv Cons by (auto simp: sq_order_inv_def)
    have fin: "\<And>a. a < fst nextTask \<Longrightarrow> ended a ?tr"
    proof -
      fix a assume a: "a < fst nextTask"
      have "fst nextTask < nextTicket s" using inv Cons by (auto simp: sq_order_inv_def tickets_def)
      with a have "a < nextTicket s" by simp
      with inv have "a \<in> tickets s \<or> a \<in> set (running s) \<or> ended a (trace s)"
        by (simp add: sq_order_inv_def)
      moreover have "a \<notin> tickets s" using a head Cons by (auto simp: tickets_def)
      ultimately show "ended a ?tr" using run by auto
    qed
    have "ordered (?tr @ [WorkerStart (fst nextTask) (snd nextTask)])"
      using otr fin by (rule ordered_snoc_start)
    moreover have "\<forall>a < nextTicket s. a \<in> fst ` set rest \<or> a = fst nextTask
        \<or> ended a (?tr @ [WorkerStart (fst nextTask) (snd nextTask)])"
      using inv run Cons by (auto simp: sq_order_inv_def tickets_def)
    ultimately show ?thesis unfolding eq using inv Cons
      by (auto simp: sq_order_inv_def tickets_def)
  qed
qed

lemma order_inv_run:
  "sq_order_inv s \<Longrightarrow> \<forall>i \<in> set inputs. \<not> is_Abort i \<Longrightarrow> sq_order_inv (sq_run s inputs)"
  unfolding sq_run_def
proof (induction inputs arbitrary: s)
  case Nil
  then show ?case by simp
next
  case (Cons i inputs)
  from Cons.prems have "sq_order_inv (sq_step s i)"
    by (cases i) (simp_all add: order_inv_push order_inv_settle)
  with Cons show ?case by simp
qed

lemma nextTicket_process [simp]: "nextTicket (process s) = nextTicket s"
  by (simp add: process_def split: list.splits)

lemma nextTicket_step:
  "nextTicket (sq_step s i) = (if is_Push i then Suc (nextTicket s) else nextTicket s)"
  by (cases i) (simp_all add: push_def abort_def worker_settles_def)

lemma nextTicket_run:
  "nextTicket (sq_run s inputs) = nextTicket s + length (filter is_Push inputs)"
  unfolding sq_run_def by (induction inputs arbitrary: s) (simp_all add: nextTicket_step)

text \<open>
  C1. In a run of pushes and settlements of any length, with the settlements at any time,
  the ticket of a \<open>push\<close> is the number of pushes before it, and whenever the worker
  for an item starts, the worker of every item submitted earlier has started and has
  ended, fulfilled or rejected, before that.
\<close>

theorem workers_run_in_submission_order:
  "\<forall>i \<in> set inputs. \<not> is_Abort i \<Longrightarrow>
   fst (push d (sq_run new_SyncQueue inputs)) = length (filter is_Push inputs)
   \<and> (\<forall>j b x a. j < length (trace (sq_run new_SyncQueue inputs))
          \<and> trace (sq_run new_SyncQueue inputs) ! j = WorkerStart b x \<and> a < b \<longrightarrow>
        (\<exists>i<j. \<exists>r. trace (sq_run new_SyncQueue inputs) ! i = WorkerEnd a r))"
proof
  show "fst (push d (sq_run new_SyncQueue inputs)) = length (filter is_Push inputs)"
    by (simp add: push_def nextTicket_run new_SyncQueue_def)
next
  assume "\<forall>i \<in> set inputs. \<not> is_Abort i"
  with order_inv_new have "sq_order_inv (sq_run new_SyncQueue inputs)" by (rule order_inv_run)
  then have "ordered (trace (sq_run new_SyncQueue inputs))" by (simp add: sq_order_inv_def)
  then show "\<forall>j b x a. j < length (trace (sq_run new_SyncQueue inputs))
          \<and> trace (sq_run new_SyncQueue inputs) ! j = WorkerStart b x \<and> a < b \<longrightarrow>
        (\<exists>i<j. \<exists>r. trace (sq_run new_SyncQueue inputs) ! i = WorkerEnd a r)"
    unfolding ordered_def .
qed

lemma demo_run:
  "trace (sq_run (new_SyncQueue :: string SyncQueue)
      [Push ''A'', Push ''B'', Settle 0 (Rejected JNull), Push ''C'', Settle 1 (Fulfilled JNull)])
   = [WorkerStart 0 ''A'', WorkerEnd 0 (Rejected JNull), PushSettled 0 (Rejected JNull),
      WorkerStart 1 ''B'', WorkerEnd 1 (Fulfilled JNull), PushSettled 1 (Fulfilled JNull),
      WorkerStart 2 ''C'']"
  by (simp add: sq_run_def push_def process_def worker_settles_def new_SyncQueue_def)

theorem workers_run_in_submission_order_witness:
  "\<not> is_Abort (Push ''A'')
   \<and> trace (sq_run (new_SyncQueue :: string SyncQueue)
      [Push ''A'', Push ''B'', Settle 0 (Rejected JNull), Push ''C'', Settle 1 (Fulfilled JNull)]) ! 3
       = WorkerStart 1 ''B''
   \<and> (\<exists>i<3. \<exists>r. trace (sq_run (new_SyncQueue :: string SyncQueue)
      [Push ''A'', Push ''B'', Settle 0 (Rejected JNull), Push ''C'', Settle 1 (Fulfilled JNull)]) ! i
       = WorkerEnd 0 r)"
proof -
  let ?inputs = "[Push ''A'', Push ''B'', Settle 0 (Rejected JNull), Push ''C'', Settle 1 (Fulfilled JNull)]"
  let ?s = "sq_run (new_SyncQueue :: string SyncQueue) ?inputs"
  have h: "\<forall>i \<in> set ?inputs. \<not> is_Abort i" by simp
  have j: "3 < length (trace ?s) \<and> trace ?s ! 3 = WorkerStart 1 ''B'' \<and> (0::nat) < 1"
    unfolding demo_run by simp
  from workers_run_in_submission_order[OF h, of "''D''"]
  have "\<forall>j b x a. j < length (trace ?s) \<and> trace ?s ! j = WorkerStart b x \<and> a < b \<longrightarrow>
        (\<exists>i<j. \<exists>r. trace ?s ! i = WorkerEnd a r)" by (rule conjunct2)
  with j have "\<exists>i<3. \<exists>r. trace ?s ! i = WorkerEnd 0 r" by blast
  with j show ?thesis by simp
qed

lemma abandoned_process:
  "abandoned t s \<Longrightarrow> abandoned t (process s)"
  by (auto simp: abandoned_def process_def tickets_def untouched_def split: list.splits)

lemma abandoned_step: "abandoned t s \<Longrightarrow> abandoned t (sq_step s i)"
proof (cases i)
  case (Push d)
  assume a: "abandoned t s"
  have "abandoned t (s\<lparr>queue := queue s @ [(nextTicket s, d)], nextTicket := Suc (nextTicket s)\<rparr>)"
    using a by (auto simp: abandoned_def tickets_def untouched_def)
  then show ?thesis unfolding Push by (simp add: push_def abandoned_process)
next
  case Abort
  assume "abandoned t s"
  then show ?thesis unfolding Abort by (auto simp: abandoned_def abort_def tickets_def untouched_def)
next
  case (Settle u r)
  assume a: "abandoned t s"
  show ?thesis
  proof (cases "u \<in> set (running s)")
    case False
    then show ?thesis using a unfolding Settle by (simp add: worker_settles_def)
  next
    case True
    with a have ut: "u \<noteq> t" by (auto simp: abandoned_def)
    have "abandoned t (s\<lparr>running := removeAll u (running s),
               trace := trace s @ [WorkerEnd u r, PushSettled u r],
               isProcessing := False\<rparr>)"
      using a ut by (auto simp: abandoned_def tickets_def untouched_def)
    then show ?thesis unfolding Settle using True by (simp add: worker_settles_def abandoned_process)
  qed
qed

lemma abandoned_run: "abandoned t s \<Longrightarrow> abandoned t (sq_run s inputs)"
  unfolding sq_run_def by (induction inputs arbitrary: s) (simp_all add: abandoned_step)

lemma fresh_process: "sq_fresh_inv s \<Longrightarrow> sq_fresh_inv (process s)"
  by (auto simp: sq_fresh_inv_def process_def tickets_def untouched_def image_iff
      split: list.splits) force+

lemma fresh_step: "sq_fresh_inv s \<Longrightarrow> sq_fresh_inv (sq_step s i)"
proof (cases i)
  case (Push d)
  assume a: "sq_fresh_inv s"
  have "sq_fresh_inv (s\<lparr>queue := queue s @ [(nextTicket s, d)], nextTicket := Suc (nextTicket s)\<rparr>)"
    using a by (fastforce simp: sq_fresh_inv_def tickets_def untouched_def)
  then show ?thesis unfolding Push by (simp add: push_def fresh_process)
next
  case Abort
  assume "sq_fresh_inv s"
  then show ?thesis unfolding Abort by (auto simp: sq_fresh_inv_def abort_def tickets_def untouched_def)
next
  case (Settle u r)
  assume a: "sq_fresh_inv s"
  show ?thesis
  proof (cases "u \<in> set (running s)")
    case False
    then show ?thesis using a unfolding Settle by (simp add: worker_settles_def)
  next
    case True
    have "sq_fresh_inv (s\<lparr>running := removeAll u (running s),
               trace := trace s @ [WorkerEnd u r, PushSettled u r],
               isProcessing := False\<rparr>)"
      using a True by (fastforce simp: sq_fresh_inv_def tickets_def untouched_def)
    then show ?thesis unfolding Settle using True by (simp add: worker_settles_def fresh_process)
  qed
qed

lemma fresh_run: "sq_fresh_inv s \<Longrightarrow> sq_fresh_inv (sq_run s inputs)"
  unfolding sq_run_def by (induction inputs arbitrary: s) (simp_all add: fresh_step)

lemma fresh_new: "sq_fresh_inv new_SyncQueue"
  by (simp add: sq_fresh_inv_def new_SyncQueue_def tickets_def)

text \<open>
  C8. \<open>abort\<close> empties the queue and clears the flag, and whatever happens afterwards, the
  trace never mentions an item that was waiting in the queue when \<open>abort\<close> was called: its
  worker is not started and the promise that \<open>push\<close> returned for it is neither resolved
  nor rejected.
\<close>

theorem abort_discards_queued_items:
  "queue (abort (sq_run new_SyncQueue before)) = []
   \<and> \<not> isProcessing (abort (sq_run new_SyncQueue before))
   \<and> (\<forall>item \<in> set (queue (sq_run new_SyncQueue before)).
        \<forall>e \<in> set (trace (sq_run (abort (sq_run new_SyncQueue before)) after)).
          event_ticket e \<noteq> fst item)"
proof (intro conjI ballI)
  show "queue (abort (sq_run new_SyncQueue before)) = []" by (simp add: abort_def)
  show "\<not> isProcessing (abort (sq_run new_SyncQueue before))" by (simp add: abort_def)
next
  fix item e
  let ?s1 = "sq_run new_SyncQueue before"
  assume item: "item \<in> set (queue ?s1)"
    and e: "e \<in> set (trace (sq_run (abort ?s1) after))"
  have "sq_fresh_inv ?s1" by (rule fresh_run[OF fresh_new])
  with item have "abandoned (fst item) (abort ?s1)"
    by (auto simp: sq_fresh_inv_def abandoned_def abort_def tickets_def untouched_def)
  then have "abandoned (fst item) (sq_run (abort ?s1) after)" by (rule abandoned_run)
  with e show "event_ticket e \<noteq> fst item" by (auto simp: abandoned_def untouched_def)
qed

theorem abort_discards_queued_items_witness:
  "queue (sq_run (new_SyncQueue :: string SyncQueue) [Push ''A'', Push ''B'', Push ''C''])
     = [(1, ''B''), (2, ''C'')]
   \<and> trace (sq_run (abort (sq_run (new_SyncQueue :: string SyncQueue) [Push ''A'', Push ''B'', Push ''C'']))
        [Settle 1 (Fulfilled JNull), Push ''D'', Settle 0 (Fulfilled JNull), Settle 3 (Rejected JNull)])
     = [WorkerStart 0 ''A'', WorkerStart 3 ''D'',
        WorkerEnd 0 (Fulfilled JNull), PushSettled 0 (Fulfilled JNull),
        WorkerEnd 3 (Rejected JNull), PushSettled 3 (Rejected JNull)]
   \<and> list_all (\<lambda>e. event_ticket e \<noteq> 1)
        (trace (sq_run (abort (sq_run (new_SyncQueue :: string SyncQueue) [Push ''A'', Push ''B'', Push ''C'']))
        [Settle 1 (Fulfilled JNull), Push ''D'', Settle 0 (Fulfilled JNull), Settle 3 (Rejected JNull)]))"
proof -
  let ?before = "[Push ''A'', Push ''B'', Push ''C'']"
  let ?after = "[Settle 1 (Fulfilled JNull), Push ''D'', Settle 0 (Fulfilled JNull), Settle 3 (Rejected JNull)]"
  let ?s1 = "sq_run (new_SyncQueue :: string SyncQueue) ?before"
  have q: "queue ?s1 = [(1, ''B''), (2, ''C'')]"
    by (simp add: sq_run_def push_def process_def new_SyncQueue_def)
  have t: "trace (sq_run (abort ?s1) ?after)
     = [WorkerStart 0 ''A'', WorkerStart 3 ''D'',
        WorkerEnd 0 (Fulfilled JNull), PushSettled 0 (Fulfilled JNull),
        WorkerEnd 3 (Rejected JNull), PushSettled 3 (Rejected JNull)]"
    by (simp add: sq_run_def push_def process_def worker_settles_def abort_def new_SyncQueue_def)
  from abort_discards_queued_items[of ?before ?after]
  have "\<forall>item \<in> set (queue ?s1). \<forall>e \<in> set (trace (sq_run (abort ?s1) ?after)).
          event_ticket e \<noteq> fst item" by blast
  then have "\<forall>e \<in> set (trace (sq_run (abort ?s1) ?after)). event_ticket e \<noteq> 1"
    unfolding q by simp
  then have "list_all (\<lambda>e. event_ticket e \<noteq> 1) (trace (sq_run (abort ?s1) ?after))"
    by (simp add: list_all_iff)
  with q t show ?thesis by simp
qed

end
